theory Spec2Isabelle
  imports Complex_Main
begin

section \<open>JavaScript values and the browser environment\<close>

text \<open>
  The presentation runs in a browser. Numbers that index scenes are integers
  (\<open>int\<close>); the times, opacities and radii of the loading animation are
  JavaScript doubles, idealised here as \<open>real\<close>; the timing of the entry gate, where
  a property depends on the rounding, is computed in double arithmetic. Strings are
  \<open>string\<close>. An exception is a value of \<open>js_error\<close>, and a
  \<^verbatim>\<open>try { ... } catch (_) {}\<close> is a case distinction on \<open>Inl\<close>.
\<close>

datatype js_error = SecurityError | TypeError

subsection \<open>\<^verbatim>\<open>parseInt(s, 10)\<close> and \<^verbatim>\<open>String(n)\<close>\<close>

text \<open>
  \<^verbatim>\<open>parseInt\<close> with radix 10 strips leading white space, reads an optional sign and
  then the longest prefix of decimal digits; with no digit the result is \<^verbatim>\<open>NaN\<close>
  (\<open>None\<close>). Whatever follows the digits is ignored. A \<open>char\<close> is a code unit below 256,
  so the white space characters are the six of ASCII and the no-break space. The
  value is an unbounded integer: the comparisons made on it come out as on the double
  that JavaScript rounds it to.
\<close>

definition is_space :: "char \<Rightarrow> bool" where
  "is_space c =
    (c = CHR 0x09 \<or> c = CHR 0x0A \<or> c = CHR 0x0B \<or> c = CHR 0x0C \<or> c = CHR 0x0D \<or> c = CHR 0x20 \<or>
     c = CHR 0xA0)"

definition digit_of :: "char \<Rightarrow> nat option" where
  "digit_of c =
    (let code = (of_char c :: nat)
     in if 48 \<le> code \<and> code \<le> 57 then Some (code - 48) else None)"

definition is_digit :: "char \<Rightarrow> bool" where
  "is_digit c = (digit_of c \<noteq> None)"

definition digit_val :: "char \<Rightarrow> nat" where
  "digit_val c = (case digit_of c of Some d \<Rightarrow> d | None \<Rightarrow> 0)"

definition digits_value :: "string \<Rightarrow> nat" where
  "digits_value z = foldl (\<lambda>n c. 10 * n + digit_val c) 0 z"

definition parseInt10 :: "string \<Rightarrow> int option" where
  "parseInt10 str =
    (let s = dropWhile is_space str;
         sign = (if s \<noteq> [] \<and> hd s = CHR ''-'' then - 1 else 1);
         s1 = (if s \<noteq> [] \<and> (hd s = CHR ''+'' \<or> hd s = CHR ''-'') then tl s else s);
         z = takeWhile is_digit s1
     in if z = [] then None else Some (sign * int (digits_value z)))"

definition digit_char :: "nat \<Rightarrow> char" where
  "digit_char d = ''0123456789'' ! d"

fun decimal :: "nat \<Rightarrow> string" where
  "decimal n = (if n < 10 then [digit_char n] else decimal (n div 10) @ [digit_char (n mod 10)])"

definition String_of_int :: "int \<Rightarrow> string" where
  "String_of_int i = (if i < 0 then CHR ''-'' # decimal (nat (- i)) else decimal (nat i))"

text \<open>
  \<^verbatim>\<open>xs.indexOf(x)\<close>: the first position of \<open>x\<close>, or \<open>-1\<close>. \<^verbatim>\<open>xs[i]\<close> is
  \<^verbatim>\<open>undefined\<close> (\<open>None\<close>) out of range.
\<close>

fun indexOf :: "'a list \<Rightarrow> 'a \<Rightarrow> int" where
  "indexOf [] x = - 1"
| "indexOf (y # ys) x = (if y = x then 0 else (let r = indexOf ys x in if r = - 1 then - 1 else r + 1))"

definition js_index :: "'a list \<Rightarrow> int \<Rightarrow> 'a option" where
  "js_index xs i = (if 0 \<le> i \<and> i < int (length xs) then Some (xs ! nat i) else None)"

subsection \<open>The page: session storage, DOM elements, timers, console\<close>

text \<open>
  \<^verbatim>\<open>sessionStorage\<close> throws on every access when the page is sandboxed
  (\<open>blocked\<close>); otherwise it is a map from keys to strings.
\<close>

record Storage =
  blocked :: bool
  items :: "string \<rightharpoonup> string"

definition getItem :: "Storage \<Rightarrow> string \<Rightarrow> js_error + string option" where
  "getItem st k = (if blocked st then Inl SecurityError else Inr (items st k))"

definition setItem :: "Storage \<Rightarrow> string \<Rightarrow> string \<Rightarrow> js_error + Storage" where
  "setItem st k v =
    (if blocked st then Inl SecurityError else Inr (st\<lparr>items := (items st)(k \<mapsto> v)\<rparr>))"

text \<open>The two callbacks the controller hands to \<^verbatim>\<open>setTimeout\<close>.\<close>

datatype timer_action = HideOverlay | ReleaseProgressGuard

text \<open>The scene instances \<^verbatim>\<open>App.initScenes\<close> builds; each class is built once.\<close>

datatype scene_obj = LoadingSceneObj | EntryGateSceneObj

record Browser =
  sessionStorage :: Storage
  progressDots :: "bool list"
  overlayHidden :: "bool option"
  elementDisplay :: "string \<rightharpoonup> string"
  timers :: "(nat \<times> timer_action) list"
  console :: "string list"
  welcomeTextAttached :: bool
  released :: "scene_obj list"

text \<open>
  \<open>progressDots\<close>: for each \<^verbatim>\<open>.progress-dot\<close> element, whether it carries the class
  \<^verbatim>\<open>active\<close>. \<open>overlayHidden\<close>: \<open>None\<close> when the page has no \<^verbatim>\<open>#loading-overlay\<close>,
  otherwise whether the overlay carries the class \<^verbatim>\<open>hidden\<close>. \<open>elementDisplay\<close>: the
  \<^verbatim>\<open>style.display\<close> of the elements found by id (\<open>None\<close>: no such element).
  \<open>timers\<close>: the pending \<^verbatim>\<open>setTimeout\<close> callbacks with their delays in
  milliseconds. \<open>released\<close>: the scenes whose graphics resources were disposed.
\<close>

definition console_log :: "string \<Rightarrow> Browser \<Rightarrow> Browser" where
  "console_log msg b = b\<lparr>console := console b @ [msg]\<rparr>"

definition setTimeout :: "timer_action \<Rightarrow> nat \<Rightarrow> Browser \<Rightarrow> Browser" where
  "setTimeout act ms b = b\<lparr>timers := timers b @ [(ms, act)]\<rparr>"

subsection \<open>Numbers in double precision\<close>

text \<open>
  A finite JavaScript number is a binary64 value: \<^verbatim>\<open>m * 2^k\<close> with \<^verbatim>\<open>|m| < 2^53\<close> and
  \<^verbatim>\<open>k >= -1074\<close>. Every arithmetic operation returns the exact result rounded to the
  nearest such value, a tie going to the even significand; comparisons compare the
  values. \<open>double x\<close> is that rounding of the real \<open>x\<close>, so that the quotient
  \<^verbatim>\<open>a / b\<close> of two numbers is \<open>double (a / b)\<close> and the literal \<^verbatim>\<open>0.05\<close> is \<open>double 0.05\<close>.

  \<open>pow2 k\<close> is the power of 2 with the integer exponent \<open>k\<close>. For a positive \<open>x\<close>,
  \<open>exponent x\<close> is the \<open>k\<close> with \<open>pow2 k \<le> x < pow2 (k + 1)\<close>, found by halving from
  above 1 and by doubling from below. \<open>ulp x\<close> is the spacing of the doubles around
  \<open>x\<close>: 52 binary places below the exponent, and \<open>pow2 (- 1074)\<close> throughout the
  subnormal range. Overflow to \<^verbatim>\<open>Infinity\<close> is not modelled: it takes a magnitude of
  \<^verbatim>\<open>2^1024\<close>, which no time on the page's clock reaches.
\<close>

definition pow2 :: "int \<Rightarrow> real" where
  "pow2 k = (if 0 \<le> k then 2 ^ nat k else 1 / 2 ^ nat (- k))"

function exponent_up :: "real \<Rightarrow> int" where
  "exponent_up x = (if x < 2 then 0 else exponent_up (x / 2) + 1)"
  by pat_completeness auto
termination
proof (relation "measure (\<lambda>x. nat \<lfloor>x\<rfloor>)")
  fix x :: real
  assume large: "\<not> x < 2"
  then have "x / 2 \<le> x - 1" by simp
  then have "\<lfloor>x / 2\<rfloor> \<le> \<lfloor>x - 1\<rfloor>" by (rule floor_mono)
  moreover have "2 \<le> \<lfloor>x\<rfloor>" using large by (simp add: le_floor_iff)
  ultimately show "(x / 2, x) \<in> measure (\<lambda>x. nat \<lfloor>x\<rfloor>)" by simp
qed simp

function exponent_down :: "real \<Rightarrow> int" where
  "exponent_down x = (if x \<le> 0 \<or> 1 \<le> x then 0 else exponent_down (2 * x) - 1)"
  by pat_completeness auto
termination
proof (relation "measure (\<lambda>x. nat \<lceil>1 / x\<rceil>)")
  fix x :: real
  assume "\<not> (x \<le> 0 \<or> 1 \<le> x)"
  then have x: "0 < x" "x < 1" by auto
  then have "1 < 1 / x" by simp
  then have c: "2 \<le> \<lceil>1 / x\<rceil>" by (simp add: le_ceiling_iff)
  have "1 / x \<le> of_int \<lceil>1 / x\<rceil>" by (rule le_of_int_ceiling)
  then have "1 / (2 * x) \<le> of_int \<lceil>1 / x\<rceil> / 2" by simp
  also have "\<dots> \<le> of_int (\<lceil>1 / x\<rceil> - 1)" using c by simp
  finally have "\<lceil>1 / (2 * x)\<rceil> \<le> \<lceil>1 / x\<rceil> - 1" by (rule ceiling_le)
  then show "(2 * x, x) \<in> measure (\<lambda>x. nat \<lceil>1 / x\<rceil>)" using c x by simp
qed simp

declare exponent_up.simps [simp del] exponent_down.simps [simp del]

definition exponent :: "real \<Rightarrow> int" where
  "exponent x = (if 1 \<le> x then exponent_up x else exponent_down x)"

text \<open>Rounding to the nearest integer, a tie going to the even one.\<close>

definition round_half_even :: "real \<Rightarrow> int" where
  "round_half_even y =
    (let n = \<lfloor>y\<rfloor>; r = y - of_int n
     in if r < 1 / 2 then n else if 1 / 2 < r then n + 1 else if even n then n else n + 1)"

definition ulp :: "real \<Rightarrow> real" where
  "ulp x = pow2 (max (exponent \<bar>x\<bar>) (- 1022) - 52)"

definition double :: "real \<Rightarrow> real" where
  "double x = of_int (round_half_even (x / ulp x)) * ulp x"

section \<open>GlobalState.js\<close>

definition SESSION_KEY :: string where
  "SESSION_KEY = ''unimate_last_scene''"

definition sceneNames :: "string list" where
  "sceneNames =
    [''loading'', ''entryGate'', ''mainStreet'', ''workshopDistrict'',
     ''competitionArena'', ''hallOfLegacy'', ''enrollmentHub'', ''exitConfirmation'']"

record UserData =
  user_name :: string
  user_age :: string
  user_contact :: string
  user_interest :: string

record GlobalState =
  currentScene :: int
  visitedScenes :: "int set"
  loadingProgress :: real
  isLoading :: bool
  canProgress :: bool
  userData :: UserData

text \<open>The constructor.\<close>

definition GlobalState_new :: GlobalState where
  "GlobalState_new =
    \<lparr>currentScene = 0, visitedScenes = {0}, loadingProgress = 0, isLoading = True,
     canProgress = False,
     userData = \<lparr>user_name = [], user_age = [], user_contact = [], user_interest = []\<rparr>\<rparr>"

text \<open>
  \<^verbatim>\<open>getSavedScene\<close>. The body of the \<^verbatim>\<open>try\<close> either returns (\<open>Inr (Some idx)\<close>), falls
  through (\<open>Inr None\<close>) or throws (\<open>Inl\<close>); after a fall-through and after the
  \<^verbatim>\<open>catch\<close> the function returns 1.
\<close>

definition getSavedScene_try :: "Browser \<Rightarrow> js_error + int option" where
  "getSavedScene_try b =
    (case getItem (sessionStorage b) SESSION_KEY of
       Inl e \<Rightarrow> Inl e
     | Inr None \<Rightarrow> Inr None
     | Inr (Some saved) \<Rightarrow>
         (case parseInt10 saved of
            None \<Rightarrow> Inr None
          | Some idx \<Rightarrow>
              if idx \<ge> 1 \<and> idx < int (length sceneNames) then Inr (Some idx) else Inr None))"

definition getSavedScene :: "Browser \<Rightarrow> int" where
  "getSavedScene b =
    (case getSavedScene_try b of
       Inr (Some idx) \<Rightarrow> idx
     | Inr None \<Rightarrow> 1
     | Inl e \<Rightarrow> 1)"

definition saveScene :: "int \<Rightarrow> Browser \<Rightarrow> Browser" where
  "saveScene index b =
    (case setItem (sessionStorage b) SESSION_KEY (String_of_int index) of
       Inr st \<Rightarrow> b\<lparr>sessionStorage := st\<rparr>
     | Inl e \<Rightarrow> b)"

definition updateProgressIndicator :: "GlobalState \<Rightarrow> Browser \<Rightarrow> Browser" where
  "updateProgressIndicator g b =
    b\<lparr>progressDots := map (\<lambda>index. int index = currentScene g) [0..<length (progressDots b)]\<rparr>"

definition template_name :: "string option \<Rightarrow> string" where
  "template_name n = (case n of Some s \<Rightarrow> s | None \<Rightarrow> ''undefined'')"

text \<open>The template strings of the console lines.\<close>

definition scene_changed_line :: "string option \<Rightarrow> string" where
  "scene_changed_line n = ''Scene changed to: '' @ template_name n"

definition not_implemented_line :: "string option \<Rightarrow> string" where
  "not_implemented_line n = ''Scene \"'' @ template_name n @ ''\" not implemented''"

definition switched_line :: "string option \<Rightarrow> string" where
  "switched_line n = ''Switched to: '' @ template_name n"

definition setScene :: "int \<Rightarrow> GlobalState \<times> Browser \<Rightarrow> GlobalState \<times> Browser" where
  "setScene sceneIndex gb =
    (case gb of (g, b) \<Rightarrow>
      if sceneIndex \<ge> 0 \<and> sceneIndex < int (length sceneNames) then
        (let g1 = g\<lparr>currentScene := sceneIndex,
                     visitedScenes := insert sceneIndex (visitedScenes g)\<rparr>;
             b1 = updateProgressIndicator g1 b;
             b2 = (if sceneIndex > 0 then saveScene sceneIndex b1 else b1);
             b3 = console_log (scene_changed_line (js_index sceneNames sceneIndex)) b2
         in (g1, b3))
      else (g, b))"

definition nextScene :: "GlobalState \<times> Browser \<Rightarrow> bool \<times> GlobalState \<times> Browser" where
  "nextScene gb =
    (case gb of (g, b) \<Rightarrow>
      if currentScene g < int (length sceneNames) - 1
      then (True, setScene (currentScene g + 1) (g, b))
      else (False, g, b))"

definition getCanProgress :: "GlobalState \<Rightarrow> bool" where
  "getCanProgress g = canProgress g"

definition setCanProgress :: "bool \<Rightarrow> GlobalState \<Rightarrow> GlobalState" where
  "setCanProgress v g = g\<lparr>canProgress := v\<rparr>"

text \<open>
  The scene index is only ever written by the constructor and by \<^verbatim>\<open>setScene\<close>, so it
  stays inside the enumeration.
\<close>

definition valid_index :: "GlobalState \<Rightarrow> bool" where
  "valid_index g = (0 \<le> currentScene g \<and> currentScene g < int (length sceneNames))"

section \<open>AudioManager.js\<close>

text \<open>
  Of the audio manager the scenes read \<^verbatim>\<open>initialized\<close> and \<^verbatim>\<open>isMuted\<close>; \<open>started\<close>
  lists the one-shot sounds whose oscillators were started, in order.
\<close>

record AudioManager =
  initialized :: bool
  isMuted :: bool
  started :: "string list"

text \<open>The constructor: no audio context yet, not muted.\<close>

definition AudioManager_new :: AudioManager where
  "AudioManager_new = \<lparr>initialized = False, isMuted = False, started = []\<rparr>"

text \<open>
  The class has the methods \<^verbatim>\<open>init\<close>, \<^verbatim>\<open>createTone\<close>, \<^verbatim>\<open>playTone\<close>,
  \<^verbatim>\<open>createMechanicalHum\<close>, \<^verbatim>\<open>playMechanicalHum\<close>, \<^verbatim>\<open>stopMechanicalHum\<close>, \<^verbatim>\<open>setMuted\<close> and
  \<^verbatim>\<open>setMasterVolume\<close>, and nothing adds a method to an instance. It has no
  \<^verbatim>\<open>playGateOpening\<close>: on an instance \<^verbatim>\<open>audioManager.playGateOpening\<close> is
  \<^verbatim>\<open>undefined\<close>, and the call \<^verbatim>\<open>audioManager.playGateOpening()\<close> raises a \<^verbatim>\<open>TypeError\<close>
  without running anything.
\<close>

definition call_playGateOpening ::
  "AudioManager \<times> Browser \<Rightarrow> js_error + AudioManager \<times> Browser" where
  "call_playGateOpening ab = Inl TypeError"

section \<open>LoadingScene.js\<close>

definition LOAD_DURATION_MS :: real where "LOAD_DURATION_MS = 1500"
definition RING_FADE_DURATION :: real where "RING_FADE_DURATION = 0.3"
definition DOT_PULSES_BEFORE_EXPLODE :: int where "DOT_PULSES_BEFORE_EXPLODE = 1"
definition EXPLODE_DURATION :: real where "EXPLODE_DURATION = 0.75"
definition PULSE_HOLD_BEFORE_EXIT :: real where "PULSE_HOLD_BEFORE_EXIT = 1.2"
definition EXIT_DURATION :: real where "EXIT_DURATION = 0.7"

datatype phase = Loading | RingFade | DotExplode | TextPulse | ExitBurst | Done

text \<open>
  The welcome text element: its \<^verbatim>\<open>style.opacity\<close>, the scale of its
  \<^verbatim>\<open>style.transform\<close>, and the two blur radii and alpha values of its
  \<^verbatim>\<open>style.textShadow\<close>.
\<close>

record WelcomeEl =
  opacity :: real
  textScale :: real
  textShadow :: "int \<times> real \<times> int \<times> real"

text \<open>
  The mutable state of a loading scene. \<open>explodeStarted\<close> is \<^verbatim>\<open>_explodeStarted\<close>
  (never initialised, so falsy at first), \<open>blockLook\<close> is \<^verbatim>\<open>_blockLook\<close>,
  \<open>exitStartRadii\<close> is \<^verbatim>\<open>_exitStartRadii\<close> (\<open>None\<close> while \<^verbatim>\<open>undefined\<close>). The
  particle buffers are the typed arrays, all built with the same length; \<open>positions\<close>
  is the position attribute of the particle geometry. The remaining fields are the
  properties of the meshes, materials and the light that \<^verbatim>\<open>update\<close> writes.
\<close>

record LoadingScene =
  phase :: phase
  phaseTimer :: real
  sceneLoadingProgress :: real
  isComplete :: bool
  pulseTime :: real
  dotPulseCount :: int
  lastSinSign :: real
  explodeStarted :: bool
  blockLook :: bool
  particleAngles :: "real list"
  particleRadii :: "real list"
  particleBaseRadii :: "real list"
  particleHeights :: "real list"
  exitStartRadii :: "real list option"
  positions :: "(real \<times> real \<times> real) list"
  dotScale :: real
  dotOpacity :: real
  dotVisible :: bool
  ringOpacity :: real
  arcOpacity :: real
  ringVisible :: bool
  arcVisible :: bool
  ringRotationZ :: real
  arcLength :: real
  particleOpacity :: real
  lightIntensity :: real
  welcomeEl :: "WelcomeEl option"

text \<open>
  The constructor. The particle radii and heights are drawn at random; the draws are
  the two arguments. The welcome text starts transparent, the look controls blocked.
\<close>

definition LoadingScene_new :: "real list \<Rightarrow> real list \<Rightarrow> LoadingScene" where
  "LoadingScene_new radii heights =
    (let count = length radii;
         angle = (\<lambda>i. (real i / real count) * pi * 2)
     in \<lparr>phase = Loading, phaseTimer = 0, sceneLoadingProgress = 0, isComplete = False,
         pulseTime = 0, dotPulseCount = 0, lastSinSign = 1, explodeStarted = False,
         blockLook = True,
         particleAngles = map angle [0..<count],
         particleRadii = radii, particleBaseRadii = radii, particleHeights = heights,
         exitStartRadii = None,
         positions =
           map (\<lambda>i. (cos (angle i) * radii ! i, heights ! i, sin (angle i) * radii ! i)) [0..<count],
         dotScale = 1, dotOpacity = 1, dotVisible = True,
         ringOpacity = 0.35, arcOpacity = 1, ringVisible = True, arcVisible = True,
         ringRotationZ = 0, arcLength = 0.001, particleOpacity = 0.7, lightIntensity = 2,
         welcomeEl = Some \<lparr>opacity = 0, textScale = 1, textShadow = (30, 0.85, 70, 0.35)\<rparr>\<rparr>)"

definition easeInQuart :: "real \<Rightarrow> real" where
  "easeInQuart t = t * t * t * t"

definition easeInOutCubic :: "real \<Rightarrow> real" where
  "easeInOutCubic t = (if t < 0.5 then 4 * t * t * t else 1 - (- 2 * t + 2) ^ 3 / 2)"

definition arrow_ids_disable :: "string list" where
  "arrow_ids_disable = [''arrow-backward'', ''arrow-left'', ''arrow-right'', ''arrow-forward'']"

definition arrow_ids_enable :: "string list" where
  "arrow_ids_enable = [''arrow-forward'', ''arrow-backward'', ''arrow-left'', ''arrow-right'']"

text \<open>\<^verbatim>\<open>const el = document.getElementById(id); if (el) el.style.display = v\<close>.\<close>

definition set_display :: "string \<Rightarrow> string \<Rightarrow> Browser \<Rightarrow> Browser" where
  "set_display v ident b =
    (case elementDisplay b ident of
       None \<Rightarrow> b
     | Some old \<Rightarrow> b\<lparr>elementDisplay := (elementDisplay b)(ident \<mapsto> v)\<rparr>)"

definition disableControls :: "LoadingScene \<times> Browser \<Rightarrow> LoadingScene \<times> Browser" where
  "disableControls sb =
    (case sb of (s, b) \<Rightarrow> (s\<lparr>blockLook := True\<rparr>, fold (set_display ''none'') arrow_ids_disable b))"

definition enableControls :: "LoadingScene \<times> Browser \<Rightarrow> LoadingScene \<times> Browser" where
  "enableControls sb =
    (case sb of (s, b) \<Rightarrow> (s\<lparr>blockLook := False\<rparr>, fold (set_display []) arrow_ids_enable b))"

text \<open>\<^verbatim>\<open>playWhoosh\<close> starts its oscillators unless the audio manager is uninitialised.\<close>

definition playWhoosh :: "AudioManager \<Rightarrow> AudioManager" where
  "playWhoosh am = (if \<not> initialized am then am else am\<lparr>started := started am @ [''whoosh'']\<rparr>)"

definition orbit_particle :: "real \<Rightarrow> nat \<Rightarrow> LoadingScene \<Rightarrow> LoadingScene" where
  "orbit_particle speed i s =
    (let a = particleAngles s ! i + (speed + real (i mod 5) * speed * 0.12);
         r = particleRadii s ! i
     in s\<lparr>particleAngles := (particleAngles s)[i := a],
          positions := (positions s)[i := (cos a * r, particleHeights s ! i, sin a * r)]\<rparr>)"

definition orbitParticles :: "real \<Rightarrow> LoadingScene \<Rightarrow> LoadingScene" where
  "orbitParticles delta s =
    (let speed = delta * 0.0004;
         count = length (particleAngles s)
     in fold (orbit_particle speed) [0..<count] s)"

text \<open>\<^verbatim>\<open>for (i = 0; i < n; i++) radii[i] = src[i] * factor\<close> on typed arrays.\<close>

definition scale_radii :: "nat \<Rightarrow> real list \<Rightarrow> real \<Rightarrow> real list \<Rightarrow> real list" where
  "scale_radii n src factor radii = fold (\<lambda>i rs. rs[i := src ! i * factor]) [0..<n] radii"

definition set_welcome_opacity :: "real \<Rightarrow> LoadingScene \<Rightarrow> LoadingScene" where
  "set_welcome_opacity v s = s\<lparr>welcomeEl := map_option (\<lambda>w. w\<lparr>opacity := v\<rparr>) (welcomeEl s)\<rparr>"

definition updateLoading :: "LoadingScene \<Rightarrow> LoadingScene" where
  "updateLoading s =
    (let sc = 1 + sin (pulseTime s * 3) * 0.3
     in s\<lparr>dotScale := sc,
          lightIntensity := 1.5 + sin (pulseTime s * 3) * 0.8,
          arcLength := sceneLoadingProgress s * pi * 2\<rparr>)"

definition updateRingFade :: "real \<Rightarrow> LoadingScene \<Rightarrow> LoadingScene" where
  "updateRingFade dt s =
    (let t = min (phaseTimer s / RING_FADE_DURATION) 1;
         opac = 1 - t;
         s1 = s\<lparr>ringOpacity := 0.35 * opac, arcOpacity := opac,
                 dotScale := 1 + sin (pulseTime s * 3) * 0.3,
                 lightIntensity := 1.5 + sin (pulseTime s * 3) * 0.8\<rparr>
     in if t \<ge> 1 then
          s1\<lparr>ringVisible := False, arcVisible := False,
             dotPulseCount := 0,
             lastSinSign := sgn (sin (pulseTime s1 * 3)),
             phase := DotExplode,
             phaseTimer := 0\<rparr>
        else s1)"

definition updateDotExplode :: "real \<Rightarrow> LoadingScene \<Rightarrow> LoadingScene" where
  "updateDotExplode dt s =
    (let sinVal = sin (pulseTime s * 3);
         sinSign = sgn sinVal;
         s1 = (if lastSinSign s > 0 \<and> sinSign \<le> 0 then
                 (let sa = s\<lparr>dotPulseCount := dotPulseCount s + 1\<rparr>
                  in if dotPulseCount sa \<ge> DOT_PULSES_BEFORE_EXPLODE \<and> \<not> explodeStarted sa
                     then sa\<lparr>explodeStarted := True, phaseTimer := 0\<rparr>
                     else sa)
               else s);
         s2 = s1\<lparr>lastSinSign := sinSign\<rparr>
     in if \<not> explodeStarted s2 then
          s2\<lparr>dotScale := 1 + sinVal * 0.3, lightIntensity := 1.5 + sinVal * 0.8\<rparr>
        else
          (let t = min (phaseTimer s2 / EXPLODE_DURATION) 1;
               ease = easeInOutCubic t;
               s3 = s2\<lparr>dotScale := 1 + ease * 60, dotOpacity := 1 - ease,
                       lightIntensity := 1.5 + sin (t * pi) * 4\<rparr>;
               s4 = (if t \<ge> 0.25 then
                       set_welcome_opacity (easeInOutCubic (min ((t - 0.25) / 0.5) 1)) s3
                     else s3);
               s5 = (if t \<ge> 0.2 then
                       (let particleT = (t - 0.2) / 0.8;
                            expandFactor = 1 + easeInOutCubic particleT * 1.5
                        in s4\<lparr>particleRadii :=
                               scale_radii (length (particleBaseRadii s4)) (particleBaseRadii s4)
                                 expandFactor (particleRadii s4)\<rparr>)
                     else s4)
           in if t \<ge> 1 then
                (set_welcome_opacity 1
                  (s5\<lparr>dotOpacity := 0, dotVisible := False, lightIntensity := 1,
                      particleRadii :=
                        scale_radii (length (particleBaseRadii s5)) (particleBaseRadii s5)
                          2.5 (particleRadii s5)\<rparr>))
                \<lparr>phase := TextPulse, phaseTimer := 0\<rparr>
              else s5))"

text \<open>\<^verbatim>\<open>x.toFixed(2)\<close>, read back as a number.\<close>

definition toFixed2 :: "real \<Rightarrow> real" where
  "toFixed2 x = real_of_int (round (x * 100)) / 100"

definition updateTextPulse ::
  "real \<Rightarrow> LoadingScene \<times> AudioManager \<Rightarrow> LoadingScene \<times> AudioManager" where
  "updateTextPulse dt sa =
    (case sa of (s, am) \<Rightarrow>
      (let pulse = 0.75 + sin (pulseTime s * 2.5) * 0.25;
           glowStr = \<lfloor>20 + pulse * 20\<rfloor>;
           glowStr2 = \<lfloor>40 + pulse * 40\<rfloor>;
           s1 = s\<lparr>welcomeEl :=
                   map_option
                     (\<lambda>w. w\<lparr>opacity := pulse,
                             textShadow := (glowStr, toFixed2 (0.6 + pulse * 0.4),
                                            glowStr2, toFixed2 (0.2 + pulse * 0.2))\<rparr>)
                     (welcomeEl s)\<rparr>;
           s2 = s1\<lparr>particleOpacity := 0.4 + pulse * 0.3\<rparr>
       in if phaseTimer s2 \<ge> PULSE_HOLD_BEFORE_EXIT then
            (if sin (pulseTime s2 * 2.5) > 0.85 then
               (s2\<lparr>phase := ExitBurst, phaseTimer := 0,
                   exitStartRadii := Some (particleRadii s2)\<rparr>,
                playWhoosh am)
             else (s2, am))
          else (s2, am)))"

text \<open>
  \<^verbatim>\<open>updateExitBurst\<close> reads \<^verbatim>\<open>this._exitStartRadii[i]\<close> for every particle: while
  the field is \<^verbatim>\<open>undefined\<close> and there is a particle, that read throws a TypeError.
\<close>

definition updateExitBurst ::
  "real \<Rightarrow> LoadingScene \<times> GlobalState \<times> Browser \<Rightarrow>
     js_error + LoadingScene \<times> GlobalState \<times> Browser" where
  "updateExitBurst dt sgb =
    (case sgb of (s, g, b) \<Rightarrow>
      (let t = min (phaseTimer s / EXIT_DURATION) 1;
           ease = easeInQuart t;
           textScale' = 1 + ease * 3;
           textOpacity = 1 - ease;
           s1 = s\<lparr>welcomeEl :=
                   map_option (\<lambda>w. w\<lparr>opacity := textOpacity, textScale := textScale'\<rparr>)
                     (welcomeEl s)\<rparr>;
           expandFactor = 1 + ease * 8
       in if exitStartRadii s1 = None \<and> particleAngles s1 \<noteq> [] then Inl TypeError
          else
            (let src = (case exitStartRadii s1 of Some xs \<Rightarrow> xs | None \<Rightarrow> []);
                 s2 = s1\<lparr>particleRadii :=
                         scale_radii (length (particleAngles s1)) src expandFactor
                           (particleRadii s1)\<rparr>;
                 s3 = s2\<lparr>particleOpacity := (1 - ease) * 0.7,
                         lightIntensity := (1 - ease) * 1.5\<rparr>
             in if t \<ge> 1 then
                  (case enableControls (s3\<lparr>isComplete := True\<rparr>, b) of
                     (s4, b4) \<Rightarrow> Inr (s4, setCanProgress True g, b4))
                else Inr (s3, g, b))))"

text \<open>\<^verbatim>\<open>update(time, delta)\<close>, called every frame by the controller.\<close>

definition update ::
  "real \<Rightarrow> real \<Rightarrow> LoadingScene \<times> GlobalState \<times> AudioManager \<times> Browser \<Rightarrow>
     js_error + LoadingScene \<times> GlobalState \<times> AudioManager \<times> Browser" where
  "update time delta w =
    (case w of (s, g, am, b) \<Rightarrow>
      if isComplete s then Inr (s, g, am, b)
      else
        (let dt = delta * 0.001;
             s1 = s\<lparr>pulseTime := pulseTime s + dt\<rparr>;
             s2 = s1\<lparr>phaseTimer := phaseTimer s1 + dt\<rparr>;
             s3 = s2\<lparr>ringRotationZ := ringRotationZ s2 + delta * 0.0004\<rparr>;
             s4 = orbitParticles delta s3
         in (case phase s4 of
               Loading \<Rightarrow> Inr (updateLoading s4, g, am, b)
             | RingFade \<Rightarrow> Inr (updateRingFade dt s4, g, am, b)
             | DotExplode \<Rightarrow> Inr (updateDotExplode dt s4, g, am, b)
             | TextPulse \<Rightarrow>
                 (case updateTextPulse dt (s4, am) of (s5, am5) \<Rightarrow> Inr (s5, g, am5, b))
             | ExitBurst \<Rightarrow>
                 (case updateExitBurst dt (s4, g, b) of
                    Inl e \<Rightarrow> Inl e
                  | Inr (s5, g5, b5) \<Rightarrow> Inr (s5, g5, am, b5))
             | Done \<Rightarrow> Inr (s4, g, am, b))))"

text \<open>A run of frames: one \<^verbatim>\<open>update\<close> per frame delta, stopping at an exception.\<close>

fun updates ::
  "real list \<Rightarrow> LoadingScene \<times> GlobalState \<times> AudioManager \<times> Browser \<Rightarrow>
     js_error + LoadingScene \<times> GlobalState \<times> AudioManager \<times> Browser" where
  "updates [] w = Inr w"
| "updates (delta # ds) w =
    (case update 0 delta w of Inl e \<Rightarrow> Inl e | Inr w' \<Rightarrow> updates ds w')"

section \<open>EntryGateScene.js\<close>

definition DOOR_ANIMATION_START :: real where "DOOR_ANIMATION_START = 0.5"
definition DOOR_ANIMATION_DURATION :: real where "DOOR_ANIMATION_DURATION = 2.0"

text \<open>
  The animation state of the gate. The two door meshes are moved on every animated
  frame, to positions computed from the eased progress; the positions are only
  rendered, the scene never reads them, and they are not part of this state.
\<close>

record EntryGateScene =
  elapsedTime :: real
  doorsOpened :: bool
  textVisible :: bool
  userPassedThrough :: bool
  progressionEnabled :: bool
  gateOpeningSoundPlayed :: bool
  fontLoaded :: bool

text \<open>The constructor: time 0, every flag clear.\<close>

definition EntryGateScene_new :: EntryGateScene where
  "EntryGateScene_new =
    \<lparr>elapsedTime = 0, doorsOpened = False, textVisible = False, userPassedThrough = False,
     progressionEnabled = False, gateOpeningSoundPlayed = False, fontLoaded = False\<rparr>"

text \<open>
  \<^verbatim>\<open>updateDoorAnimation\<close> returns the exception that ended it, if any, and the state
  as it left it: an exception does not undo what was assigned before it. The
  progress \<open>t\<close> is computed as the code computes it, every operation rounded to a
  double. The scene's audio manager is the one the controller constructs, an
  instance of the class of \<^verbatim>\<open>AudioManager.js\<close>.
\<close>

definition updateDoorAnimation ::
  "EntryGateScene \<times> AudioManager \<times> Browser \<Rightarrow>
   js_error option \<times> EntryGateScene \<times> AudioManager \<times> Browser" where
  "updateDoorAnimation w =
    (case w of (e, am, b) \<Rightarrow>
      if doorsOpened e then (None, e, am, b)
      else if elapsedTime e < DOOR_ANIMATION_START then (None, e, am, b)
      else
        (let animTime = double (elapsedTime e - DOOR_ANIMATION_START);
             t = min (double (animTime / DOOR_ANIMATION_DURATION)) 1
         in case (if t > 0 \<and> t < double 0.05 \<and> \<not> gateOpeningSoundPlayed e then
                    (case call_playGateOpening (am, b) of
                       Inl err \<Rightarrow> Inl err
                     | Inr (am', b') \<Rightarrow> Inr (e\<lparr>gateOpeningSoundPlayed := True\<rparr>, am', b'))
                  else Inr (e, am, b)) of
              Inl err \<Rightarrow> (Some err, e, am, b)
            | Inr (e2, am2, b2) \<Rightarrow>
                if t \<ge> 1 then
                  (None, e2\<lparr>doorsOpened := True\<rparr>, am2, console_log ''Doors fully opened'' b2)
                else (None, e2, am2, b2)))"

text \<open>
  One frame of the gate, as far as the doors go: \<^verbatim>\<open>update(elapsed, delta)\<close> stores
  \<^verbatim>\<open>elapsed / 1000\<close> and calls \<^verbatim>\<open>updateDoorAnimation\<close> first. \<^verbatim>\<open>elapsed\<close> is the clock's
  \<^verbatim>\<open>current - start\<close>, the difference of two \<^verbatim>\<open>Date.now()\<close> readings: a whole number
  of milliseconds, which a double holds exactly. (When \<^verbatim>\<open>updateDoorAnimation\<close> throws,
  the rest of \<^verbatim>\<open>update\<close> is skipped on that frame; when it returns, the title, camera
  and theme steps that follow touch neither these flags nor the audio manager.
  Those steps are left out.)
\<close>

definition door_frame ::
  "int \<Rightarrow> EntryGateScene \<times> AudioManager \<times> Browser \<Rightarrow>
   js_error option \<times> EntryGateScene \<times> AudioManager \<times> Browser" where
  "door_frame elapsed w =
    (case w of (e, am, b) \<Rightarrow>
      updateDoorAnimation (e\<lparr>elapsedTime := double (of_int elapsed / 1000)\<rparr>, am, b))"

text \<open>
  A run of frames. An exception thrown in a frame ends only that frame's \<^verbatim>\<open>tick\<close>
  listener: the browser reports it, and the next tick runs on the state as the throw
  left it. The result lists the reported exceptions, in order.
\<close>

fun door_frames ::
  "int list \<Rightarrow> EntryGateScene \<times> AudioManager \<times> Browser \<Rightarrow>
   js_error list \<times> EntryGateScene \<times> AudioManager \<times> Browser" where
  "door_frames [] w = ([], w)"
| "door_frames (f # fs) w =
    (case door_frame f w of
       (r, w') \<Rightarrow>
         (case door_frames fs w' of
            (rs, w'') \<Rightarrow> ((case r of None \<Rightarrow> rs | Some x \<Rightarrow> x # rs), w'')))"

section \<open>App.js\<close>

definition SCENE_NAMES :: "string list" where
  "SCENE_NAMES =
    [''loading'', ''entryGate'', ''mainStreet'', ''workshopDistrict'',
     ''competitionArena'', ''hallOfLegacy'', ''enrollmentHub'', ''exitConfirmation'']"

text \<open>
  The controller. \<open>scenes\<close> is the registry: a name maps to the instance built for it;
  \<open>None\<close> stands for a slot holding \<^verbatim>\<open>null\<close> and for a name that is no key of the
  registry (both are falsy in \<^verbatim>\<open>if (!scene)\<close>). The registry is a plain map: the
  members an object literal inherits (\<^verbatim>\<open>toString\<close>, \<^verbatim>\<open>constructor\<close>, ...) are not
  modelled, and no caller passes such a name. \<open>App_currentScene\<close> is the active
  scene, \<open>None\<close> for \<^verbatim>\<open>null\<close>. \<open>progressGuard\<close> is \<^verbatim>\<open>_progressGuard\<close>. Both scene
  classes define \<^verbatim>\<open>dispose\<close>, so \<^verbatim>\<open>this.currentScene?.dispose\<close> holds exactly when a
  scene is active.
\<close>

record App =
  globalState :: GlobalState
  scenes :: "string \<rightharpoonup> scene_obj"
  App_currentScene :: "scene_obj option"
  progressGuard :: bool

text \<open>
  \<^verbatim>\<open>this.scenes[sceneName]\<close>; the argument may be \<^verbatim>\<open>undefined\<close> (\<open>None\<close>, when it came
  from \<^verbatim>\<open>SCENE_NAMES[i]\<close> with \<open>i\<close> out of range), which is then the key
  \<^verbatim>\<open>"undefined"\<close>.
\<close>

definition scene_lookup :: "App \<Rightarrow> string option \<Rightarrow> scene_obj option" where
  "scene_lookup a sceneName = scenes a (template_name sceneName)"

text \<open>\<^verbatim>\<open>SCENE_NAMES.indexOf(sceneName)\<close>; \<^verbatim>\<open>undefined\<close> is no element of the array.\<close>

definition SCENE_NAMES_indexOf :: "string option \<Rightarrow> int" where
  "SCENE_NAMES_indexOf sceneName =
    (case sceneName of None \<Rightarrow> - 1 | Some n \<Rightarrow> indexOf SCENE_NAMES n)"

text \<open>
  \<^verbatim>\<open>dispose()\<close> of a scene instance, as far as the page sees it: the loading scene
  removes its welcome text from the document, the entry gate logs; both release
  their geometries and materials.
\<close>

definition dispose :: "scene_obj \<Rightarrow> Browser \<Rightarrow> Browser" where
  "dispose sc b =
    (case sc of
       LoadingSceneObj \<Rightarrow> b\<lparr>welcomeTextAttached := False, released := released b @ [sc]\<rparr>
     | EntryGateSceneObj \<Rightarrow> console_log ''EntryGateScene disposed'' (b\<lparr>released := released b @ [sc]\<rparr>))"

definition fadeTransition :: "Browser \<Rightarrow> Browser" where
  "fadeTransition b =
    (case overlayHidden b of
       None \<Rightarrow> b
     | Some h \<Rightarrow> setTimeout HideOverlay 300 (b\<lparr>overlayHidden := Some False\<rparr>))"

definition App_setScene :: "int \<Rightarrow> App \<times> Browser \<Rightarrow> App \<times> Browser" where
  "App_setScene idx ab =
    (case ab of (a, b) \<Rightarrow>
      (case setScene idx (globalState a, b) of (g, b1) \<Rightarrow> (a\<lparr>globalState := g\<rparr>, b1)))"

definition switchScene :: "string option \<Rightarrow> App \<times> Browser \<Rightarrow> App \<times> Browser" where
  "switchScene sceneName ab =
    (case ab of (a, b) \<Rightarrow>
      (case scene_lookup a sceneName of
         None \<Rightarrow>
           (let b1 = console_log (not_implemented_line sceneName) b;
                idx = SCENE_NAMES_indexOf sceneName;
                (a2, b2) = (if idx \<noteq> - 1 then App_setScene idx (a, b1) else (a, b1));
                a3 = a2\<lparr>App_currentScene := None\<rparr>;
                b3 = fadeTransition b2
            in (a3, b3))
       | Some scene \<Rightarrow>
           (let b1 = (case App_currentScene a of Some cur \<Rightarrow> dispose cur b | None \<Rightarrow> b);
                a1 = a\<lparr>App_currentScene := Some scene\<rparr>;
                idx = SCENE_NAMES_indexOf sceneName;
                (a2, b2) = (if idx \<noteq> - 1 then App_setScene idx (a1, b1) else (a1, b1));
                b3 = fadeTransition b2;
                b4 = console_log (switched_line sceneName) b3
            in (a2, b4))))"

definition previousScene :: "App \<times> Browser \<Rightarrow> App \<times> Browser" where
  "previousScene ab =
    (case ab of (a, b) \<Rightarrow>
      (let currentIdx = currentScene (globalState a) in
       if currentIdx \<le> 0 then (a, b)
       else (let prevIdx = currentIdx - 1 in
             if prevIdx = 0 then (a, b)
             else switchScene (js_index SCENE_NAMES prevIdx) (a, b))))"

definition App_nextScene :: "App \<times> Browser \<Rightarrow> bool \<times> App \<times> Browser" where
  "App_nextScene ab =
    (case ab of (a, b) \<Rightarrow>
      (case nextScene (globalState a, b) of (ok, g, b1) \<Rightarrow> (ok, a\<lparr>globalState := g\<rparr>, b1)))"

definition checkSceneProgression :: "App \<times> Browser \<Rightarrow> App \<times> Browser" where
  "checkSceneProgression ab =
    (case ab of (a, b) \<Rightarrow>
      if \<not> getCanProgress (globalState a) \<or> progressGuard a then (a, b)
      else
        (let currentIdx = currentScene (globalState a) in
         if currentIdx = 0 then
           (let a1 = a\<lparr>progressGuard := True\<rparr>;
                a2 = a1\<lparr>globalState := setCanProgress False (globalState a1)\<rparr>;
                savedIdx = getSavedScene b;
                (a3, b3) = switchScene (js_index SCENE_NAMES savedIdx) (a2, b)
            in (a3, setTimeout ReleaseProgressGuard 500 b3))
         else if getCanProgress (globalState a) then
           (let a1 = a\<lparr>progressGuard := True\<rparr>;
                a2 = a1\<lparr>globalState := setCanProgress False (globalState a1)\<rparr>;
                (ok, a3, b3) = App_nextScene (a2, b);
                (a4, b4) = (if ok then switchScene (js_index SCENE_NAMES (currentScene (globalState a3))) (a3, b3)
                            else (a3, b3))
            in (a4, setTimeout ReleaseProgressGuard 500 b4))
         else (a, b)))"

text \<open>
  The constructor: the registry with the two scenes \<^verbatim>\<open>initScenes\<close> builds (the
  loading scene attaches its welcome text and hides the arrows when it is built,
  the entry gate logs), no active scene, the guard clear, and then
  \<^verbatim>\<open>switchScene('loading')\<close>.
\<close>

definition initScenes :: "App \<times> Browser \<Rightarrow> App \<times> Browser" where
  "initScenes ab =
    (case ab of (a, b) \<Rightarrow>
      (let b1 = fold (set_display ''none'') arrow_ids_disable (b\<lparr>welcomeTextAttached := True\<rparr>);
           b2 = console_log ''EntryGateScene initialized'' b1
       in (a\<lparr>scenes := (scenes a)(''loading'' \<mapsto> LoadingSceneObj, ''entryGate'' \<mapsto> EntryGateSceneObj)\<rparr>,
           b2)))"

definition App_new :: "Browser \<Rightarrow> App \<times> Browser" where
  "App_new b =
    (let a = \<lparr>globalState = GlobalState_new, scenes = Map.empty, App_currentScene = None,
              progressGuard = False\<rparr>;
         (a1, b1) = initScenes (a, b);
         (a2, b2) = switchScene (Some ''loading'') (a1, b1)
     in (a2, console_log ''App initialized'' b2))"

text \<open>
  A pending timer fires: the callback runs against whatever state exists then, and
  the timer leaves the queue.
\<close>

definition run_timer_action :: "timer_action \<Rightarrow> App \<times> Browser \<Rightarrow> App \<times> Browser" where
  "run_timer_action act ab =
    (case ab of (a, b) \<Rightarrow>
      (case act of
         HideOverlay \<Rightarrow> (a, b\<lparr>overlayHidden := map_option (\<lambda>h. True) (overlayHidden b)\<rparr>)
       | ReleaseProgressGuard \<Rightarrow> (a\<lparr>progressGuard := False\<rparr>, b)))"

definition fire_timers :: "App \<times> Browser \<Rightarrow> App \<times> Browser" where
  "fire_timers ab =
    (case ab of (a, b) \<Rightarrow>
      fold (\<lambda>t. run_timer_action (snd t)) (timers b) (a, b\<lparr>timers := []\<rparr>))"

text \<open>
  The console lines \<^verbatim>\<open>switchScene\<close> writes, one per call: their number counts the
  scene swaps.
\<close>

definition is_switch_line :: "string \<Rightarrow> bool" where
  "is_switch_line l = (take 13 l = ''Switched to: '' \<or> take 7 l = ''Scene \"'')"

definition scene_swaps :: "Browser \<Rightarrow> nat" where
  "scene_swaps b = length (filter is_switch_line (console b))"

section \<open>Notions used to state the properties\<close>

text \<open>
  A fresh page with eight progress dots, the overlay and the four arrows; the same
  page with an item in the session storage; and a page whose storage throws.
\<close>

definition Browser_fresh :: Browser where
  "Browser_fresh =
    \<lparr>sessionStorage = \<lparr>blocked = False, items = Map.empty\<rparr>,
     progressDots = replicate 8 False,
     overlayHidden = Some False,
     elementDisplay =
       [''arrow-forward'' \<mapsto> [], ''arrow-backward'' \<mapsto> [], ''arrow-left'' \<mapsto> [], ''arrow-right'' \<mapsto> []],
     timers = [],
     console = [],
     welcomeTextAttached = False,
     released = []\<rparr>"

definition stored :: "string \<Rightarrow> Browser \<Rightarrow> Browser" where
  "stored v b = b\<lparr>sessionStorage := \<lparr>blocked = False, items = [SESSION_KEY \<mapsto> v]\<rparr>\<rparr>"

definition sandboxed :: "Browser \<Rightarrow> Browser" where
  "sandboxed b = b\<lparr>sessionStorage := (sessionStorage b)\<lparr>blocked := True\<rparr>\<rparr>"

text \<open>What \<^verbatim>\<open>sessionStorage.getItem(SESSION_KEY)\<close> yields: \<open>None\<close> when the key is absent or the
  access throws.\<close>

definition stored_item :: "Browser \<Rightarrow> string option" where
  "stored_item b = (if blocked (sessionStorage b) then None else items (sessionStorage b) SESSION_KEY)"

text \<open>
  The resume index in the words of the specification: an integer string is an
  optional minus sign and then digits only; the stored integer is returned when it
  lies in 1 to 7, and 1 in every other case.
\<close>

definition integer_string :: "string \<Rightarrow> bool" where
  "integer_string s =
    (case s of
       [] \<Rightarrow> False
     | c # cs \<Rightarrow> if c = CHR ''-'' then cs \<noteq> [] \<and> list_all is_digit cs else list_all is_digit s)"

definition integer_value :: "string \<Rightarrow> int" where
  "integer_value s =
    (case s of
       [] \<Rightarrow> 0
     | c # cs \<Rightarrow> if c = CHR ''-'' then - int (digits_value cs) else int (digits_value s))"

definition claimed_resume_index :: "Browser \<Rightarrow> int" where
  "claimed_resume_index b =
    (case stored_item b of
       None \<Rightarrow> 1
     | Some s \<Rightarrow>
         if integer_string s \<and> 1 \<le> integer_value s \<and> integer_value s \<le> 7
         then integer_value s else 1)"

text \<open>\<open>n\<close> calls of \<^verbatim>\<open>nextScene\<close> in a row: what each returned and the index it left.\<close>

fun nextScene_run :: "nat \<Rightarrow> GlobalState \<times> Browser \<Rightarrow> (bool \<times> int) list" where
  "nextScene_run 0 gb = []"
| "nextScene_run (Suc n) gb =
    (case nextScene gb of (ok, gb') \<Rightarrow> (ok, currentScene (fst gb')) # nextScene_run n gb')"

text \<open>
  \<^verbatim>\<open>if (idx !== -1) this.globalState.setScene(idx)\<close>: the index bookkeeping that both
  paths of \<^verbatim>\<open>switchScene\<close> perform.
\<close>

definition index_bookkeeping :: "int \<Rightarrow> GlobalState \<times> Browser \<Rightarrow> GlobalState \<times> Browser" where
  "index_bookkeeping idx gb = (if idx \<noteq> - 1 then setScene idx gb else gb)"

text \<open>
  What \<^verbatim>\<open>checkSceneProgression\<close> does before it branches: it engages the guard and
  clears the advance flag.
\<close>

definition engage :: "App \<Rightarrow> App" where
  "engage a = a\<lparr>progressGuard := True, globalState := setCanProgress False (globalState a)\<rparr>"

text \<open>
  A scene or the forward arrow sets the advance flag; a round is that, the next
  progression check, and then the pending timers firing.
\<close>

definition request_advance :: "App \<times> Browser \<Rightarrow> App \<times> Browser" where
  "request_advance ab = (case ab of (a, b) \<Rightarrow> (a\<lparr>globalState := setCanProgress True (globalState a)\<rparr>, b))"

definition advance_round :: "App \<times> Browser \<Rightarrow> App \<times> Browser" where
  "advance_round ab = fire_timers (checkSceneProgression (request_advance ab))"

text \<open>
  The controller while the loading scene runs, and the controller on the last
  scene (no scene is built for it) with the advance flag set.
\<close>

definition App_loading :: App where
  "App_loading =
    \<lparr>globalState = GlobalState_new,
      scenes = [''loading'' \<mapsto> LoadingSceneObj, ''entryGate'' \<mapsto> EntryGateSceneObj],
      App_currentScene = Some LoadingSceneObj, progressGuard = False\<rparr>"

definition App_at_exit :: "App \<times> Browser" where
  "App_at_exit =
    (\<lparr>globalState = GlobalState_new\<lparr>currentScene := 7, canProgress := True\<rparr>,
      scenes = [''loading'' \<mapsto> LoadingSceneObj, ''entryGate'' \<mapsto> EntryGateSceneObj],
      App_currentScene = None, progressGuard = False\<rparr>,
     Browser_fresh)"

text \<open>
  The pulse signal as the frames sample it: the sign of \<^verbatim>\<open>Math.sin(pulseTime * 3)\<close> on
  each frame of a run whose frame deltas (in milliseconds) are given, starting from a
  pulse time.
\<close>

fun pulse_signs :: "real \<Rightarrow> real list \<Rightarrow> real list" where
  "pulse_signs p [] = []"
| "pulse_signs p (delta # ds) =
    sgn (sin ((p + delta * 0.001) * 3)) # pulse_signs (p + delta * 0.001) ds"

text \<open>
  The first frame whose previous sign was positive and whose own sign is not: the
  previous sign of the first frame is the seed.
\<close>

fun first_crossing :: "real \<Rightarrow> real list \<Rightarrow> nat option" where
  "first_crossing prev [] = None"
| "first_crossing prev (c # cs) =
    (if prev > 0 \<and> c \<le> 0 then Some 0 else map_option Suc (first_crossing c cs))"

definition elapsed_seconds :: "real list \<Rightarrow> real" where
  "elapsed_seconds ds = sum_list (map (\<lambda>delta. delta * 0.001) ds)"

text \<open>A loading scene in \<^verbatim>\<open>dotExplode\<close> that still waits for its pulse to complete.\<close>

definition waiting :: "LoadingScene \<Rightarrow> bool" where
  "waiting s = (phase s = DotExplode \<and> \<not> isComplete s \<and> \<not> explodeStarted s \<and> 0 \<le> dotPulseCount s)"

text \<open>
  Two loading scenes with two particles: one waiting in \<^verbatim>\<open>dotExplode\<close>, seeded at the
  top of a pulse; one in \<^verbatim>\<open>exitBurst\<close>, 10 ms before the burst ends.
\<close>

definition scene_waiting :: LoadingScene where
  "scene_waiting =
    (LoadingScene_new [1.2, 1.5] [0.1, - 0.2])
      \<lparr>phase := DotExplode, phaseTimer := 0, pulseTime := pi / 6, lastSinSign := 1,
       ringVisible := False, arcVisible := False\<rparr>"

definition scene_bursting :: LoadingScene where
  "scene_bursting =
    (LoadingScene_new [1.2, 1.5] [0.1, - 0.2])
      \<lparr>phase := ExitBurst, phaseTimer := 0.69, pulseTime := 5, explodeStarted := True,
       exitStartRadii := Some [3, 3.75]\<rparr>"

text \<open>
  The frames of the gate, by their elapsed time in milliseconds. \<open>door_started\<close>: the
  frame passes the start test of the door animation. \<open>door_t\<close> is the progress \<open>t\<close>
  the code computes on the frame. A frame is in the cue window when the animation has
  started and \<open>0 < t < 0.05\<close> holds of that \<open>t\<close>; it finds the doors fully open when
  \<open>t \<ge> 1\<close>. \<open>cue_frame\<close> is the first frame in the window, provided no earlier frame
  found the doors fully open.
\<close>

definition door_started :: "int \<Rightarrow> bool" where
  "door_started elapsed = (\<not> double (of_int elapsed / 1000) < DOOR_ANIMATION_START)"

definition door_t :: "int \<Rightarrow> real" where
  "door_t elapsed =
    min (double (double (double (of_int elapsed / 1000) - DOOR_ANIMATION_START) /
                 DOOR_ANIMATION_DURATION)) 1"

definition cue_window :: "int \<Rightarrow> bool" where
  "cue_window elapsed =
    (door_started elapsed \<and> 0 < door_t elapsed \<and> door_t elapsed < double 0.05)"

definition doors_done :: "int \<Rightarrow> bool" where
  "doors_done elapsed = (door_started elapsed \<and> 1 \<le> door_t elapsed)"

fun cue_frame :: "int list \<Rightarrow> nat option" where
  "cue_frame [] = None"
| "cue_frame (f # fs) =
    (if cue_window f then Some 0
     else if doors_done f then None
     else map_option Suc (cue_frame fs))"

section \<open>Properties of GlobalState\<close>

lemma length_sceneNames: "length sceneNames = 8"
  by (simp add: sceneNames_def)

lemma valid_index_new: "valid_index GlobalState_new"
  by (simp add: valid_index_def GlobalState_new_def length_sceneNames)

lemma valid_index_setScene: "valid_index g \<Longrightarrow> valid_index (fst (setScene i (g, b)))"
  by (simp add: valid_index_def setScene_def Let_def)

lemma valid_index_nextScene: "valid_index g \<Longrightarrow> valid_index (fst (snd (nextScene (g, b))))"
  by (simp add: nextScene_def valid_index_setScene)

lemma setScene_out_of_range:
  "sceneIndex < 0 \<or> 8 \<le> sceneIndex \<Longrightarrow> setScene sceneIndex (g, b) = (g, b)"
  by (auto simp add: setScene_def length_sceneNames)

lemma setScene_state:
  "0 \<le> i \<Longrightarrow> i < 8 \<Longrightarrow>
   fst (setScene i (g, b)) = g\<lparr>currentScene := i, visitedScenes := insert i (visitedScenes g)\<rparr>"
  by (simp add: setScene_def length_sceneNames Let_def)

lemma sessionStorage_console_log [simp]: "sessionStorage (console_log m b) = sessionStorage b"
  by (simp add: console_log_def)

lemma sessionStorage_updateProgressIndicator [simp]:
  "sessionStorage (updateProgressIndicator g b) = sessionStorage b"
  by (simp add: updateProgressIndicator_def)

lemma setScene_storage:
  "0 \<le> i \<Longrightarrow> i < 8 \<Longrightarrow>
   sessionStorage (snd (setScene i (g, b))) =
     (if i > 0 \<and> \<not> blocked (sessionStorage b)
      then (sessionStorage b)\<lparr>items := (items (sessionStorage b))(SESSION_KEY \<mapsto> String_of_int i)\<rparr>
      else sessionStorage b)"
  by (simp add: setScene_def length_sceneNames Let_def saveScene_def setItem_def)

lemma nextScene_last:
  "currentScene g = 7 \<Longrightarrow> nextScene (g, b) = (False, g, b)"
  by (simp add: nextScene_def length_sceneNames)

lemma nextScene_step:
  assumes "valid_index g" "currentScene g \<noteq> 7"
  shows "nextScene (g, b) = (True, setScene (currentScene g + 1) (g, b))"
    and "currentScene (fst (snd (nextScene (g, b)))) = currentScene g + 1"
  using assms
  by (auto simp add: nextScene_def valid_index_def length_sceneNames setScene_state)

lemma nextScene_result:
  assumes "valid_index g"
  shows "fst (nextScene (g, b)) = (currentScene g + 1 \<le> 7)"
    and "currentScene (fst (snd (nextScene (g, b)))) = min (currentScene g + 1) 7"
    and "valid_index (fst (snd (nextScene (g, b))))"
  using assms
  by (auto simp add: nextScene_def valid_index_def length_sceneNames setScene_state)

lemma upt_from_1_Suc: "[1..<Suc (Suc n)] = 1 # map Suc [1..<Suc n]"
  by (metis One_nat_def map_Suc_upt upt_conv_Cons zero_less_Suc Suc_less_eq)

lemma nextScene_run_closed:
  "valid_index g \<Longrightarrow>
   nextScene_run n (g, b) =
     map (\<lambda>k. (currentScene g + int k \<le> 7, min (currentScene g + int k) 7)) [1..<Suc n]"
proof (induction n arbitrary: g b)
  case 0
  then show ?case by simp
next
  case (Suc n)
  have v: "valid_index g" by fact
  obtain ok g' b' where step: "nextScene (g, b) = (ok, g', b')"
    by (cases "nextScene (g, b)") auto
  have ok: "ok = (currentScene g + 1 \<le> 7)"
    and cur: "currentScene g' = min (currentScene g + 1) 7"
    and v': "valid_index g'"
    using nextScene_result [OF v, of b] step by simp_all
  have le7: "currentScene g \<le> 7"
    using v by (simp add: valid_index_def length_sceneNames)
  have shift: "\<And>k. 1 \<le> k \<Longrightarrow>
      (currentScene g' + int k \<le> 7, min (currentScene g' + int k) 7) =
      (currentScene g + int (Suc k) \<le> 7, min (currentScene g + int (Suc k)) 7)"
    using cur le7 by auto
  have "nextScene_run (Suc n) (g, b) = (ok, currentScene g') # nextScene_run n (g', b')"
    using step by simp
  also have "nextScene_run n (g', b') =
      map (\<lambda>k. (currentScene g' + int k \<le> 7, min (currentScene g' + int k) 7)) [1..<Suc n]"
    by (rule Suc.IH [OF v'])
  also have "\<dots> = map (\<lambda>k. (currentScene g + int (Suc k) \<le> 7, min (currentScene g + int (Suc k)) 7)) [1..<Suc n]"
  proof (rule map_cong [OF refl])
    fix k assume "k \<in> set [1..<Suc n]"
    then have "1 \<le> k" by (simp del: upt_Suc)
    then show "(currentScene g' + int k \<le> 7, min (currentScene g' + int k) 7) =
      (currentScene g + int (Suc k) \<le> 7, min (currentScene g + int (Suc k)) 7)"
      by (rule shift)
  qed
  finally have run: "nextScene_run (Suc n) (g, b) =
      (ok, currentScene g') #
      map (\<lambda>k. (currentScene g + int (Suc k) \<le> 7, min (currentScene g + int (Suc k)) 7)) [1..<Suc n]" .
  have head: "(ok, currentScene g') = (currentScene g + int 1 \<le> 7, min (currentScene g + int 1) 7)"
    using ok cur by simp
  show ?case
    unfolding run head upt_from_1_Suc [of n] list.map map_map comp_def ..
qed

lemma digit_not_space_sign:
  "is_digit c \<Longrightarrow> \<not> is_space c \<and> c \<noteq> CHR ''+'' \<and> c \<noteq> CHR ''-''"
  by (auto simp add: is_digit_def digit_of_def Let_def is_space_def split: if_splits)

lemma takeWhile_all: "list_all P xs \<Longrightarrow> takeWhile P xs = xs"
  by (simp add: list_all_iff)

lemma parseInt10_digits:
  assumes "list_all is_digit s" "s \<noteq> []"
  shows "parseInt10 s = Some (int (digits_value s))"
proof -
  obtain c cs where s: "s = c # cs" using assms(2) by (cases s) auto
  have c: "is_digit c" using assms(1) s by simp
  have nospace: "dropWhile is_space s = s"
    using digit_not_space_sign [OF c] s by simp
  have tw: "takeWhile is_digit s = s" by (rule takeWhile_all [OF assms(1)])
  have "s \<noteq> [] \<and> hd s \<noteq> CHR ''-'' \<and> hd s \<noteq> CHR ''+''"
    using digit_not_space_sign [OF c] s by simp
  then show ?thesis
    using assms(2) by (simp add: parseInt10_def nospace tw Let_def)
qed

lemma parseInt10_minus_digits:
  assumes "list_all is_digit cs" "cs \<noteq> []"
  shows "parseInt10 (CHR ''-'' # cs) = Some (- int (digits_value cs))"
proof -
  have tw: "takeWhile is_digit cs = cs" by (rule takeWhile_all [OF assms(1)])
  show ?thesis
    using assms(2) by (simp add: parseInt10_def is_space_def tw Let_def)
qed

lemma parseInt10_integer_string:
  "integer_string s \<Longrightarrow> parseInt10 s = Some (integer_value s)"
  by (cases s)
    (auto simp add: integer_string_def integer_value_def parseInt10_digits parseInt10_minus_digits
      split: if_splits)

lemma digit_char_cases:
  assumes "d < 10"
  shows "is_digit (digit_char d) \<and> digit_val (digit_char d) = d"
proof -
  have "d = 0 \<or> d = 1 \<or> d = 2 \<or> d = 3 \<or> d = 4 \<or> d = 5 \<or> d = 6 \<or> d = 7 \<or> d = 8 \<or> d = 9"
    using assms by arith
  then show ?thesis
    by (elim disjE) (simp_all add: digit_char_def is_digit_def digit_val_def digit_of_def Let_def)
qed

lemma digits_value_snoc: "digits_value (xs @ [c]) = 10 * digits_value xs + digit_val c"
  by (simp add: digits_value_def)

lemma decimal_props:
  "list_all is_digit (decimal n) \<and> decimal n \<noteq> [] \<and> digits_value (decimal n) = n"
proof (induction n rule: decimal.induct)
  case (1 n)
  show ?case
  proof (cases "n < 10")
    case True
    then show ?thesis
      using digit_char_cases [of n] by (simp add: digits_value_def)
  next
    case False
    have m: "n mod 10 < 10" by simp
    have eq: "decimal n = decimal (n div 10) @ [digit_char (n mod 10)]"
      using False by (subst decimal.simps) simp
    show ?thesis
      using "1.IH" [OF False] digit_char_cases [OF m]
      by (simp add: eq digits_value_snoc del: decimal.simps)
  qed
qed

lemma decimal_no_minus: "hd (decimal n) \<noteq> CHR ''-''"
proof -
  have "is_digit (hd (decimal n))"
    using decimal_props [of n] by (cases "decimal n") auto
  then show ?thesis using digit_not_space_sign by blast
qed

lemma String_of_int_integer:
  "integer_string (String_of_int i) \<and> integer_value (String_of_int i) = i"
proof (cases "i < 0")
  case True
  then show ?thesis
    using decimal_props [of "nat (- i)"]
    by (simp add: String_of_int_def integer_string_def integer_value_def)
next
  case False
  obtain c cs where d: "decimal (nat i) = c # cs"
    using decimal_props [of "nat i"] by (cases "decimal (nat i)") auto
  have "c \<noteq> CHR ''-''" using decimal_no_minus [of "nat i"] d by simp
  then show ?thesis
    using False decimal_props [of "nat i"] d
    by (simp add: String_of_int_def integer_string_def integer_value_def)
qed

lemma parseInt10_String: "parseInt10 (String_of_int i) = Some i"
  using String_of_int_integer [of i] parseInt10_integer_string by auto

lemma getSavedScene_unfold:
  "getSavedScene b =
    (case stored_item b of
       None \<Rightarrow> 1
     | Some s \<Rightarrow>
        (case parseInt10 s of
           None \<Rightarrow> 1
         | Some idx \<Rightarrow> if 1 \<le> idx \<and> idx \<le> 7 then idx else 1))"
  by (auto simp add: getSavedScene_def getSavedScene_try_def getItem_def stored_item_def
      length_sceneNames split: option.splits)

lemma getSavedScene_range: "1 \<le> getSavedScene b \<and> getSavedScene b \<le> 7"
  by (simp add: getSavedScene_unfold split: option.splits)

text \<open>
  Claim C2, as amended. Whatever the session storage holds, and also when it throws,
  \<^verbatim>\<open>getSavedScene\<close> returns an index from 1 to 7. It returns 1 when the storage is
  blocked or the key is absent. When the storage holds \<^verbatim>\<open>String(i)\<close> for an \<open>i\<close> from
  1 to 7 it returns \<open>i\<close>, and on every integer string it returns what the claim
  says. In general the result is decided by \<^verbatim>\<open>parseInt\<close>: the value of the longest
  signed digit prefix when that lies in 1 to 7, and 1 otherwise.
\<close>

theorem getSavedScene_resume_index:
  "1 \<le> getSavedScene b \<and> getSavedScene b \<le> 7 \<and>
   (stored_item b = None \<longrightarrow> getSavedScene b = 1) \<and>
   (\<forall>i. 1 \<le> i \<and> i \<le> 7 \<and> stored_item b = Some (String_of_int i) \<longrightarrow> getSavedScene b = i) \<and>
   (\<forall>s. stored_item b = Some s \<and> integer_string s \<longrightarrow> getSavedScene b = claimed_resume_index b) \<and>
   (\<forall>s. stored_item b = Some s \<longrightarrow>
      getSavedScene b =
        (case parseInt10 s of
           None \<Rightarrow> 1
         | Some idx \<Rightarrow> if 1 \<le> idx \<and> idx \<le> 7 then idx else 1))"
proof (intro conjI allI impI)
  show "1 \<le> getSavedScene b" and "getSavedScene b \<le> 7"
    using getSavedScene_range [of b] by simp_all
next
  assume "stored_item b = None"
  then show "getSavedScene b = 1" by (simp add: getSavedScene_unfold)
next
  fix i assume "1 \<le> i \<and> i \<le> 7 \<and> stored_item b = Some (String_of_int i)"
  then show "getSavedScene b = i"
    by (simp add: getSavedScene_unfold parseInt10_String)
next
  fix s assume "stored_item b = Some s \<and> integer_string s"
  then show "getSavedScene b = claimed_resume_index b"
    by (simp add: getSavedScene_unfold claimed_resume_index_def parseInt10_integer_string)
next
  fix s assume "stored_item b = Some s"
  then show "getSavedScene b =
        (case parseInt10 s of
           None \<Rightarrow> 1
         | Some idx \<Rightarrow> if 1 \<le> idx \<and> idx \<le> 7 then idx else 1)"
    by (simp add: getSavedScene_unfold)
qed

lemma stored_item_stored: "stored_item (stored v b) = Some v"
  by (simp add: stored_item_def stored_def)

text \<open>The scenarios of the specification: stored \<^verbatim>\<open>"4"\<close>, \<^verbatim>\<open>"99"\<close>, \<^verbatim>\<open>"0"\<close>, a
  negative number, a word, nothing, and a store that throws.\<close>

theorem getSavedScene_resume_index_witness:
  "getSavedScene (stored ''4'' Browser_fresh) = 4 \<and>
   getSavedScene (stored ''99'' Browser_fresh) = 1 \<and>
   getSavedScene (stored ''0'' Browser_fresh) = 1 \<and>
   getSavedScene (stored ''-3'' Browser_fresh) = 1 \<and>
   getSavedScene (stored ''seven'' Browser_fresh) = 1 \<and>
   getSavedScene Browser_fresh = 1 \<and>
   getSavedScene (sandboxed (stored ''4'' Browser_fresh)) = 1"
proof -
  have p4: "parseInt10 ''4'' = Some 4" and p99: "parseInt10 ''99'' = Some 99"
    and p0: "parseInt10 ''0'' = Some 0" and pm3: "parseInt10 ''-3'' = Some (- 3)"
    and pw: "parseInt10 ''seven'' = None"
    by (simp_all add: parseInt10_def is_space_def is_digit_def digit_of_def Let_def digits_value_def
        digit_val_def)
  have none: "stored_item Browser_fresh = None"
    "stored_item (sandboxed (stored ''4'' Browser_fresh)) = None"
    by (simp_all add: stored_item_def Browser_fresh_def sandboxed_def stored_def SESSION_KEY_def)
  show ?thesis
    using getSavedScene_resume_index [of "stored ''4'' Browser_fresh"]
      getSavedScene_resume_index [of "stored ''99'' Browser_fresh"]
      getSavedScene_resume_index [of "stored ''0'' Browser_fresh"]
      getSavedScene_resume_index [of "stored ''-3'' Browser_fresh"]
      getSavedScene_resume_index [of "stored ''seven'' Browser_fresh"]
      getSavedScene_resume_index [of "Browser_fresh"]
      getSavedScene_resume_index [of "sandboxed (stored ''4'' Browser_fresh)"]
    by (simp add: stored_item_stored p4 p99 p0 pm3 pw none)
qed

text \<open>
  Claim C2 as stated fails where the stored string is not an integer string but
  begins with one: \<^verbatim>\<open>parseInt("3abc", 10)\<close> is 3, so the scene resumes at 3, not 1.
\<close>

theorem getSavedScene_trailing_text_counterexample:
  "\<not> integer_string ''3abc'' \<and>
   claimed_resume_index (stored ''3abc'' Browser_fresh) = 1 \<and>
   getSavedScene (stored ''3abc'' Browser_fresh) = 3"
proof -
  have p: "parseInt10 ''3abc'' = Some 3"
    by (simp add: parseInt10_def is_space_def is_digit_def digit_of_def Let_def digits_value_def
        digit_val_def)
  have n: "\<not> integer_string ''3abc''"
    by (simp add: integer_string_def is_digit_def digit_of_def Let_def)
  show ?thesis
    using n by (simp add: getSavedScene_unfold claimed_resume_index_def stored_item_stored p)
qed

text \<open>
  Claim C3. In a state whose index lies in the enumeration, \<^verbatim>\<open>nextScene\<close> fails and
  changes nothing at the last index 7; otherwise it succeeds and does exactly
  \<^verbatim>\<open>setScene(currentScene + 1)\<close>, which makes \<open>currentScene + 1\<close> current. Hence in
  any run of calls the \<open>k\<close>-th succeeds as long as \<open>currentScene + k \<le> 7\<close> and
  then leaves the index at \<open>currentScene + k\<close>: successful calls count up one by one.
\<close>

theorem nextScene_advances:
  "valid_index g \<longrightarrow>
     (currentScene g = 7 \<longrightarrow> nextScene (g, b) = (False, g, b)) \<and>
     (currentScene g \<noteq> 7 \<longrightarrow>
        nextScene (g, b) = (True, setScene (currentScene g + 1) (g, b)) \<and>
        currentScene (fst (snd (nextScene (g, b)))) = currentScene g + 1) \<and>
     nextScene_run n (g, b) =
       map (\<lambda>k. (currentScene g + int k \<le> 7, min (currentScene g + int k) 7)) [1..<Suc n]"
proof (intro impI conjI)
  assume v: "valid_index g"
  show "nextScene (g, b) = (False, g, b)" if "currentScene g = 7"
    using that by (rule nextScene_last)
  show "nextScene (g, b) = (True, setScene (currentScene g + 1) (g, b))" if "currentScene g \<noteq> 7"
    using v that by (rule nextScene_step(1))
  show "currentScene (fst (snd (nextScene (g, b)))) = currentScene g + 1" if "currentScene g \<noteq> 7"
    using v that by (rule nextScene_step(2))
  show "nextScene_run n (g, b) =
       map (\<lambda>k. (currentScene g + int k \<le> 7, min (currentScene g + int k) 7)) [1..<Suc n]"
    using v by (rule nextScene_run_closed)
qed

text \<open>From index 5: two successful calls reach 6 and 7, the third fails.\<close>

theorem nextScene_advances_witness:
  "nextScene_run 3 (GlobalState_new\<lparr>currentScene := 5\<rparr>, Browser_fresh) =
     [(True, 6), (True, 7), (False, 7)] \<and>
   fst (nextScene (GlobalState_new\<lparr>currentScene := 7\<rparr>, Browser_fresh)) = False \<and>
   currentScene (fst (snd (nextScene (GlobalState_new, Browser_fresh)))) = 1"
proof -
  let ?g5 = "GlobalState_new\<lparr>currentScene := 5\<rparr>"
  let ?g7 = "GlobalState_new\<lparr>currentScene := 7\<rparr>"
  have v5: "valid_index ?g5" and v7: "valid_index ?g7" and v0: "valid_index GlobalState_new"
    by (simp_all add: valid_index_def GlobalState_new_def length_sceneNames)
  have c5: "currentScene ?g5 = 5" and c7: "currentScene ?g7 = 7"
    and c0: "currentScene GlobalState_new = 0"
    by (simp_all add: GlobalState_new_def)
  have "nextScene_run 3 (?g5, Browser_fresh) =
      map (\<lambda>k. (currentScene ?g5 + int k \<le> 7, min (currentScene ?g5 + int k) 7)) [1..<Suc 3]"
    using nextScene_advances [of ?g5 Browser_fresh 3] v5 by blast
  also have "\<dots> = [(True, 6), (True, 7), (False, 7)]"
    unfolding c5 by (simp add: upt_rec)
  finally have run: "nextScene_run 3 (?g5, Browser_fresh) = [(True, 6), (True, 7), (False, 7)]" .
  have last: "nextScene (?g7, Browser_fresh) = (False, ?g7, Browser_fresh)"
    using nextScene_advances [of ?g7 Browser_fresh 0] v7 c7 by blast
  have "currentScene GlobalState_new \<noteq> 7" by (simp add: c0)
  then have first: "currentScene (fst (snd (nextScene (GlobalState_new, Browser_fresh)))) =
      currentScene GlobalState_new + 1"
    using nextScene_advances [of GlobalState_new Browser_fresh 0] v0 by blast
  show ?thesis
    using run last first c0 by simp
qed

lemma setScene_dots:
  "0 \<le> i \<Longrightarrow> i < 8 \<Longrightarrow>
   progressDots (snd (setScene i (g, b))) = map (\<lambda>k. int k = i) [0..<length (progressDots b)]"
  by (simp add: setScene_def length_sceneNames Let_def saveScene_def setItem_def
      console_log_def updateProgressIndicator_def)

text \<open>
  Claim C4. With an index outside 0 to 7 \<^verbatim>\<open>setScene\<close> returns the state and the page
  as they were (nothing is thrown: the only throwing access, the storage write, is
  caught in \<^verbatim>\<open>saveScene\<close>). With an index inside it makes that index current and
  visited and leaves the other fields alone, marks exactly that progress dot, and
  writes the session storage exactly when the index is positive: the key then
  holds \<^verbatim>\<open>String(index)\<close> unless the storage throws, and with index 0 the storage
  is untouched.
\<close>

theorem setScene_effect:
  "(sceneIndex < 0 \<or> 7 < sceneIndex \<longrightarrow> setScene sceneIndex (g, b) = (g, b)) \<and>
   (0 \<le> sceneIndex \<and> sceneIndex \<le> 7 \<longrightarrow>
      fst (setScene sceneIndex (g, b)) =
        g\<lparr>currentScene := sceneIndex, visitedScenes := insert sceneIndex (visitedScenes g)\<rparr> \<and>
      progressDots (snd (setScene sceneIndex (g, b))) =
        map (\<lambda>k. int k = sceneIndex) [0..<length (progressDots b)] \<and>
      sessionStorage (snd (setScene sceneIndex (g, b))) =
        (if sceneIndex > 0 then sessionStorage (saveScene sceneIndex b) else sessionStorage b) \<and>
      (sceneIndex > 0 \<and> \<not> blocked (sessionStorage b) \<longrightarrow>
         items (sessionStorage (snd (setScene sceneIndex (g, b)))) =
           (items (sessionStorage b))(SESSION_KEY \<mapsto> String_of_int sceneIndex)) \<and>
      (sceneIndex = 0 \<or> blocked (sessionStorage b) \<longrightarrow>
         sessionStorage (snd (setScene sceneIndex (g, b))) = sessionStorage b))"
proof (intro conjI impI)
  assume "sceneIndex < 0 \<or> 7 < sceneIndex"
  then show "setScene sceneIndex (g, b) = (g, b)"
    by (intro setScene_out_of_range) auto
next
  assume r: "0 \<le> sceneIndex \<and> sceneIndex \<le> 7"
  then have lo: "0 \<le> sceneIndex" and hi: "sceneIndex < 8" by simp_all
  show "fst (setScene sceneIndex (g, b)) =
        g\<lparr>currentScene := sceneIndex, visitedScenes := insert sceneIndex (visitedScenes g)\<rparr>"
    using lo hi by (rule setScene_state)
  show "progressDots (snd (setScene sceneIndex (g, b))) =
        map (\<lambda>k. int k = sceneIndex) [0..<length (progressDots b)]"
    using lo hi by (rule setScene_dots)
  have st: "sessionStorage (snd (setScene sceneIndex (g, b))) =
     (if sceneIndex > 0 \<and> \<not> blocked (sessionStorage b)
      then (sessionStorage b)\<lparr>items := (items (sessionStorage b))(SESSION_KEY \<mapsto> String_of_int sceneIndex)\<rparr>
      else sessionStorage b)"
    using lo hi by (rule setScene_storage)
  show "sessionStorage (snd (setScene sceneIndex (g, b))) =
        (if sceneIndex > 0 then sessionStorage (saveScene sceneIndex b) else sessionStorage b)"
    unfolding st by (simp add: saveScene_def setItem_def)
  show "items (sessionStorage (snd (setScene sceneIndex (g, b)))) =
           (items (sessionStorage b))(SESSION_KEY \<mapsto> String_of_int sceneIndex)"
    if "sceneIndex > 0 \<and> \<not> blocked (sessionStorage b)"
    unfolding st using that by simp
  show "sessionStorage (snd (setScene sceneIndex (g, b))) = sessionStorage b"
    if "sceneIndex = 0 \<or> blocked (sessionStorage b)"
    unfolding st using that by auto
qed

text \<open>
  Index 4 on a fresh page is stored as \<^verbatim>\<open>"4"\<close>; index 0 and index 8 leave the storage
  empty, and index 8 leaves the index where it was.
\<close>

theorem setScene_effect_witness:
  "currentScene (fst (setScene 4 (GlobalState_new, Browser_fresh))) = 4 \<and>
   visitedScenes (fst (setScene 4 (GlobalState_new, Browser_fresh))) = {0, 4} \<and>
   items (sessionStorage (snd (setScene 4 (GlobalState_new, Browser_fresh)))) SESSION_KEY = Some ''4'' \<and>
   items (sessionStorage (snd (setScene 0 (GlobalState_new, Browser_fresh)))) SESSION_KEY = None \<and>
   setScene 8 (GlobalState_new, Browser_fresh) = (GlobalState_new, Browser_fresh) \<and>
   setScene (- 1) (GlobalState_new, Browser_fresh) = (GlobalState_new, Browser_fresh)"
proof -
  have s4: "String_of_int 4 = ''4''"
    by (simp add: String_of_int_def digit_char_def)
  have fresh: "\<not> blocked (sessionStorage Browser_fresh)"
    "items (sessionStorage Browser_fresh) = Map.empty"
    by (simp_all add: Browser_fresh_def)
  have v: "visitedScenes GlobalState_new = {0}"
    by (simp add: GlobalState_new_def)
  have "insert (4::int) {0} = {0, 4}" by auto
  then show ?thesis
    using setScene_effect [of 4 GlobalState_new Browser_fresh]
      setScene_effect [of 0 GlobalState_new Browser_fresh]
      setScene_effect [of 8 GlobalState_new Browser_fresh]
      setScene_effect [of "- 1" GlobalState_new Browser_fresh]
    by (simp add: s4 fresh v saveScene_def setItem_def)
qed

section \<open>Properties of the controller\<close>

lemma indexOf_range: "- 1 \<le> indexOf xs x \<and> indexOf xs x < int (length xs)"
  by (induction xs) (auto simp add: Let_def)

lemma indexOf_absent: "x \<notin> set xs \<Longrightarrow> indexOf xs x = - 1"
  by (induction xs) (auto simp add: Let_def)

lemma indexOf_present:
  "x \<in> set xs \<Longrightarrow> 0 \<le> indexOf xs x \<and> js_index xs (indexOf xs x) = Some x"
proof (induction xs)
  case Nil
  then show ?case by simp
next
  case (Cons y ys)
  show ?case
  proof (cases "y = x")
    case True
    then show ?thesis by (simp add: js_index_def)
  next
    case False
    then have "x \<in> set ys" using Cons.prems by simp
    then have ih: "0 \<le> indexOf ys x" "js_index ys (indexOf ys x) = Some x"
      using Cons.IH by simp_all
    have lt: "indexOf ys x < int (length ys)" using indexOf_range [of ys x] by simp
    have "nat (indexOf ys x + 1) = Suc (nat (indexOf ys x))" using ih(1) by simp
    then show ?thesis
      using False ih lt by (simp add: js_index_def Let_def split: if_splits)
  qed
qed

lemma indexOf_nth:
  "distinct xs \<Longrightarrow> i < length xs \<Longrightarrow> indexOf xs (xs ! i) = int i"
proof (induction xs arbitrary: i)
  case Nil
  then show ?case by simp
next
  case (Cons y ys)
  show ?case
  proof (cases i)
    case 0
    then show ?thesis by simp
  next
    case (Suc j)
    then have j: "j < length ys" using Cons.prems by simp
    have "ys ! j \<noteq> y" using Cons.prems(1) j by auto
    then show ?thesis
      using Suc Cons.IH [of j] Cons.prems(1) j by (simp add: Let_def)
  qed
qed

lemma length_SCENE_NAMES: "length SCENE_NAMES = 8"
  by (simp add: SCENE_NAMES_def)

lemma distinct_SCENE_NAMES: "distinct SCENE_NAMES"
  by (simp add: SCENE_NAMES_def)

lemma SCENE_NAMES_indexOf_range: "- 1 \<le> SCENE_NAMES_indexOf n \<and> SCENE_NAMES_indexOf n \<le> 7"
proof (cases n)
  case None
  then show ?thesis by (simp add: SCENE_NAMES_indexOf_def)
next
  case (Some x)
  then show ?thesis
    using indexOf_range [of SCENE_NAMES x] by (simp add: SCENE_NAMES_indexOf_def length_SCENE_NAMES)
qed

lemma SCENE_NAMES_indexOf_at:
  "0 \<le> i \<Longrightarrow> i \<le> 7 \<Longrightarrow> SCENE_NAMES_indexOf (js_index SCENE_NAMES i) = i"
  using indexOf_nth [OF distinct_SCENE_NAMES, of "nat i"]
  by (simp add: SCENE_NAMES_indexOf_def js_index_def length_SCENE_NAMES)

lemma SCENE_NAMES_indexOf_undefined:
  "i < 0 \<or> 7 < i \<Longrightarrow> SCENE_NAMES_indexOf (js_index SCENE_NAMES i) = - 1"
  by (auto simp add: SCENE_NAMES_indexOf_def js_index_def length_SCENE_NAMES)

lemma setScene_browser:
  "0 \<le> i \<Longrightarrow> i < 8 \<Longrightarrow>
   snd (setScene i (g, b)) =
     b\<lparr>progressDots := map (\<lambda>k. int k = i) [0..<length (progressDots b)],
       sessionStorage := (if i > 0 then sessionStorage (saveScene i b) else sessionStorage b),
       console := console b @ [scene_changed_line (js_index sceneNames i)]\<rparr>"
  by (simp add: setScene_def length_sceneNames Let_def saveScene_def setItem_def
      console_log_def updateProgressIndicator_def)

lemma App_setScene_eq:
  "App_setScene idx (a, b) =
    (a\<lparr>globalState := fst (setScene idx (globalState a, b))\<rparr>, snd (setScene idx (globalState a, b)))"
  by (simp add: App_setScene_def split: prod.splits)

lemma switchScene_unbuilt_eq:
  assumes "scene_lookup a n = None"
  shows "switchScene n (a, b) =
    (a\<lparr>globalState :=
         fst (index_bookkeeping (SCENE_NAMES_indexOf n) (globalState a,
           console_log (not_implemented_line n) b)),
       App_currentScene := None\<rparr>,
     fadeTransition (snd (index_bookkeeping (SCENE_NAMES_indexOf n) (globalState a,
       console_log (not_implemented_line n) b))))"
  using assms
  by (simp add: switchScene_def Let_def App_setScene_eq index_bookkeeping_def)

lemma switchScene_built_eq:
  assumes "scene_lookup a n = Some sc"
  shows "switchScene n (a, b) =
    (a\<lparr>App_currentScene := Some sc,
       globalState :=
         fst (index_bookkeeping (SCENE_NAMES_indexOf n) (globalState a,
           (case App_currentScene a of Some cur \<Rightarrow> dispose cur b | None \<Rightarrow> b)))\<rparr>,
     console_log (switched_line n)
       (fadeTransition (snd (index_bookkeeping (SCENE_NAMES_indexOf n) (globalState a,
         (case App_currentScene a of Some cur \<Rightarrow> dispose cur b | None \<Rightarrow> b))))))"
  using assms
  by (simp add: switchScene_def Let_def App_setScene_eq index_bookkeeping_def)

lemma index_bookkeeping_state:
  "fst (index_bookkeeping idx (g, b)) =
     (if 0 \<le> idx \<and> idx \<le> 7
      then g\<lparr>currentScene := idx, visitedScenes := insert idx (visitedScenes g)\<rparr> else g)"
  by (auto simp add: index_bookkeeping_def setScene_state setScene_out_of_range)

lemma switchScene_globalState:
  "globalState (fst (switchScene n (a, b))) =
     (if 0 \<le> SCENE_NAMES_indexOf n
      then (globalState a)\<lparr>currentScene := SCENE_NAMES_indexOf n,
             visitedScenes := insert (SCENE_NAMES_indexOf n) (visitedScenes (globalState a))\<rparr>
      else globalState a)"
proof (cases "scene_lookup a n")
  case None
  show ?thesis
    using SCENE_NAMES_indexOf_range [of n]
    by (simp add: switchScene_unbuilt_eq [OF None] index_bookkeeping_state)
next
  case (Some sc)
  show ?thesis
    using SCENE_NAMES_indexOf_range [of n]
    by (simp add: switchScene_built_eq [OF Some] index_bookkeeping_state)
qed

lemma switchScene_app_fields:
  "App_currentScene (fst (switchScene n (a, b))) = scene_lookup a n \<and>
   progressGuard (fst (switchScene n (a, b))) = progressGuard a \<and>
   scenes (fst (switchScene n (a, b))) = scenes a"
proof (cases "scene_lookup a n")
  case None
  show ?thesis by (simp add: switchScene_unbuilt_eq [OF None] None)
next
  case (Some sc)
  show ?thesis by (simp add: switchScene_built_eq [OF Some] Some)
qed

lemma index_bookkeeping_page:
  "overlayHidden (snd (index_bookkeeping idx (g, b))) = overlayHidden b \<and>
   timers (snd (index_bookkeeping idx (g, b))) = timers b \<and>
   elementDisplay (snd (index_bookkeeping idx (g, b))) = elementDisplay b \<and>
   released (snd (index_bookkeeping idx (g, b))) = released b \<and>
   welcomeTextAttached (snd (index_bookkeeping idx (g, b))) = welcomeTextAttached b \<and>
   sessionStorage (snd (index_bookkeeping idx (g, b))) =
     (if 0 < idx \<and> idx \<le> 7 then sessionStorage (saveScene idx b) else sessionStorage b) \<and>
   console (snd (index_bookkeeping idx (g, b))) =
     console b @
     (if 0 \<le> idx \<and> idx \<le> 7
      then [scene_changed_line (js_index sceneNames idx)] else [])"
proof (cases "0 \<le> idx \<and> idx \<le> 7")
  case True
  then have r: "0 \<le> idx" "idx < 8" by simp_all
  have "idx \<noteq> - 1" using True by simp
  then show ?thesis
    using True by (simp add: index_bookkeeping_def setScene_browser [OF r])
next
  case False
  then have "setScene idx (g, b) = (g, b)"
    by (intro setScene_out_of_range) auto
  then show ?thesis
    using False by (auto simp add: index_bookkeeping_def)
qed

lemma switch_lines:
  "is_switch_line (switched_line x)"
  "is_switch_line (not_implemented_line y)"
  "\<not> is_switch_line (scene_changed_line z)"
  "\<not> is_switch_line ''EntryGateScene disposed''"
  by (simp_all add: is_switch_line_def switched_line_def not_implemented_line_def
      scene_changed_line_def)

lemma scene_swaps_append: "console b' = console b @ ls \<Longrightarrow>
  scene_swaps b' = scene_swaps b + length (filter is_switch_line ls)"
  by (simp add: scene_swaps_def)

lemma fadeTransition_page:
  "console (fadeTransition b) = console b \<and>
   sessionStorage (fadeTransition b) = sessionStorage b \<and>
   progressDots (fadeTransition b) = progressDots b \<and>
   overlayHidden (fadeTransition b) = map_option (\<lambda>h. False) (overlayHidden b) \<and>
   timers (fadeTransition b) =
     timers b @ (if overlayHidden b = None then [] else [(300, HideOverlay)])"
  by (simp add: fadeTransition_def setTimeout_def split: option.splits)

lemma dispose_page:
  "sessionStorage (dispose sc b) = sessionStorage b \<and>
   progressDots (dispose sc b) = progressDots b \<and>
   overlayHidden (dispose sc b) = overlayHidden b \<and>
   timers (dispose sc b) = timers b \<and>
   scene_swaps (dispose sc b) = scene_swaps b"
  by (cases sc) (simp_all add: dispose_def console_log_def scene_swaps_def switch_lines)

lemma scene_swaps_switchScene: "scene_swaps (snd (switchScene n (a, b))) = scene_swaps b + 1"
proof (cases "scene_lookup a n")
  case None
  show ?thesis
    by (simp add: switchScene_unbuilt_eq [OF None] scene_swaps_def fadeTransition_page
        index_bookkeeping_page console_log_def switch_lines)
next
  case (Some sc)
  have d: "scene_swaps (case App_currentScene a of Some cur \<Rightarrow> dispose cur b | None \<Rightarrow> b) = scene_swaps b"
    by (simp add: dispose_page split: option.splits)
  show ?thesis
    using d
    by (simp add: switchScene_built_eq [OF Some] scene_swaps_def fadeTransition_page
        index_bookkeeping_page console_log_def switch_lines)
qed

lemma saveScene_storage:
  "sessionStorage (saveScene i b) =
     (if blocked (sessionStorage b) then sessionStorage b
      else (sessionStorage b)\<lparr>items := (items (sessionStorage b))(SESSION_KEY \<mapsto> String_of_int i)\<rparr>)"
  by (simp add: saveScene_def setItem_def)

lemma switchScene_page:
  "sessionStorage (snd (switchScene n (a, b))) =
     (if 0 < SCENE_NAMES_indexOf n then sessionStorage (saveScene (SCENE_NAMES_indexOf n) b)
      else sessionStorage b) \<and>
   overlayHidden (snd (switchScene n (a, b))) = map_option (\<lambda>h. False) (overlayHidden b) \<and>
   timers (snd (switchScene n (a, b))) =
     timers b @ (if overlayHidden b = None then [] else [(300, HideOverlay)])"
proof (cases "scene_lookup a n")
  case None
  show ?thesis
    using SCENE_NAMES_indexOf_range [of n]
    by (simp add: switchScene_unbuilt_eq [OF None] fadeTransition_page
        index_bookkeeping_page console_log_def saveScene_storage)
next
  case (Some sc)
  show ?thesis
    using SCENE_NAMES_indexOf_range [of n]
    by (simp add: switchScene_built_eq [OF Some] fadeTransition_page
        index_bookkeeping_page console_log_def saveScene_storage dispose_page split: option.splits)
qed

text \<open>
  Claim C5. When the registry holds no instance for the name, \<^verbatim>\<open>switchScene\<close> (a
  total function: nothing on this path throws) leaves no active scene; if the name
  is in the enumeration, its position becomes the current index and is visited;
  if it is not, the global state is untouched. The page is that of the logged
  message, the index bookkeeping and then the fade: the overlay, if there is one,
  is shown and its hiding is scheduled after 300 ms. The global state and the
  session storage end up exactly as on the normal path, that is, as if the
  registry had held an instance for the name.
\<close>

theorem switchScene_unbuilt:
  "scene_lookup a sceneName = None \<longrightarrow>
     App_currentScene (fst (switchScene sceneName (a, b))) = None \<and>
     (\<forall>n. sceneName = Some n \<and> n \<in> set SCENE_NAMES \<longrightarrow>
        js_index SCENE_NAMES (currentScene (globalState (fst (switchScene sceneName (a, b))))) = Some n \<and>
        currentScene (globalState (fst (switchScene sceneName (a, b)))) = indexOf SCENE_NAMES n \<and>
        indexOf SCENE_NAMES n \<in> visitedScenes (globalState (fst (switchScene sceneName (a, b))))) \<and>
     (SCENE_NAMES_indexOf sceneName = - 1 \<longrightarrow>
        globalState (fst (switchScene sceneName (a, b))) = globalState a) \<and>
     snd (switchScene sceneName (a, b)) =
       fadeTransition (snd (index_bookkeeping (SCENE_NAMES_indexOf sceneName)
         (globalState a,
          console_log (not_implemented_line sceneName) b))) \<and>
     overlayHidden (snd (switchScene sceneName (a, b))) = map_option (\<lambda>h. False) (overlayHidden b) \<and>
     timers (snd (switchScene sceneName (a, b))) =
       timers b @ (if overlayHidden b = None then [] else [(300, HideOverlay)]) \<and>
     (\<forall>sc. globalState (fst (switchScene sceneName
              (a\<lparr>scenes := (scenes a)(template_name sceneName \<mapsto> sc)\<rparr>, b))) =
            globalState (fst (switchScene sceneName (a, b))) \<and>
          sessionStorage (snd (switchScene sceneName
              (a\<lparr>scenes := (scenes a)(template_name sceneName \<mapsto> sc)\<rparr>, b))) =
            sessionStorage (snd (switchScene sceneName (a, b))))"
proof (intro impI conjI allI)
  assume un: "scene_lookup a sceneName = None"
  show "App_currentScene (fst (switchScene sceneName (a, b))) = None"
    using switchScene_app_fields [of sceneName a b] un by simp
  show "snd (switchScene sceneName (a, b)) =
       fadeTransition (snd (index_bookkeeping (SCENE_NAMES_indexOf sceneName)
         (globalState a,
          console_log (not_implemented_line sceneName) b)))"
    by (simp add: switchScene_unbuilt_eq [OF un])
  show "overlayHidden (snd (switchScene sceneName (a, b))) = map_option (\<lambda>h. False) (overlayHidden b)"
    using switchScene_page [of sceneName a b] by simp
  show "timers (snd (switchScene sceneName (a, b))) =
       timers b @ (if overlayHidden b = None then [] else [(300, HideOverlay)])"
    using switchScene_page [of sceneName a b] by simp
  show "globalState (fst (switchScene sceneName (a, b))) = globalState a"
    if "SCENE_NAMES_indexOf sceneName = - 1"
    using that by (simp add: switchScene_globalState)
  {
    fix n assume n: "sceneName = Some n \<and> n \<in> set SCENE_NAMES"
    then have idx: "SCENE_NAMES_indexOf sceneName = indexOf SCENE_NAMES n"
      by (simp add: SCENE_NAMES_indexOf_def)
    have pres: "0 \<le> indexOf SCENE_NAMES n" "js_index SCENE_NAMES (indexOf SCENE_NAMES n) = Some n"
      using indexOf_present [of n SCENE_NAMES] n by simp_all
    show "currentScene (globalState (fst (switchScene sceneName (a, b)))) = indexOf SCENE_NAMES n"
      using pres(1) by (simp add: switchScene_globalState idx)
    then show "js_index SCENE_NAMES (currentScene (globalState (fst (switchScene sceneName (a, b))))) = Some n"
      using pres(2) by simp
    show "indexOf SCENE_NAMES n \<in> visitedScenes (globalState (fst (switchScene sceneName (a, b))))"
      using pres(1) by (simp add: switchScene_globalState idx)
  }
  {
    fix sc
    let ?a' = "a\<lparr>scenes := (scenes a)(template_name sceneName \<mapsto> sc)\<rparr>"
    show "globalState (fst (switchScene sceneName (?a', b))) =
            globalState (fst (switchScene sceneName (a, b)))"
      by (simp add: switchScene_globalState)
    show "sessionStorage (snd (switchScene sceneName (?a', b))) =
            sessionStorage (snd (switchScene sceneName (a, b)))"
      using switchScene_page [of sceneName ?a' b] switchScene_page [of sceneName a b] by simp
  }
qed

lemma switchScene_flags:
  "canProgress (globalState (fst (switchScene n (a, b)))) = canProgress (globalState a) \<and>
   progressGuard (fst (switchScene n (a, b))) = progressGuard a"
  using switchScene_app_fields [of n a b] by (simp add: switchScene_globalState)

lemma previousScene_low:
  "currentScene (globalState a) \<le> 1 \<Longrightarrow> previousScene (a, b) = (a, b)"
  by (simp add: previousScene_def Let_def)

lemma previousScene_high:
  "2 \<le> currentScene (globalState a) \<Longrightarrow>
   previousScene (a, b) = switchScene (js_index SCENE_NAMES (currentScene (globalState a) - 1)) (a, b)"
  by (simp add: previousScene_def Let_def)

lemma previousScene_nonzero:
  assumes "currentScene (globalState a) \<noteq> 0"
  shows "currentScene (globalState (fst (previousScene (a, b)))) \<noteq> 0"
proof (cases "currentScene (globalState a) \<le> 1")
  case True
  then show ?thesis using assms by (simp add: previousScene_low)
next
  case False
  then have hi: "2 \<le> currentScene (globalState a)" by simp
  show ?thesis
  proof (cases "currentScene (globalState a) - 1 \<le> 7")
    case True
    have "SCENE_NAMES_indexOf (js_index SCENE_NAMES (currentScene (globalState a) - 1)) =
        currentScene (globalState a) - 1"
      using hi True by (intro SCENE_NAMES_indexOf_at) simp_all
    then show ?thesis
      using hi by (simp add: previousScene_high switchScene_globalState)
  next
    case False
    then have "SCENE_NAMES_indexOf (js_index SCENE_NAMES (currentScene (globalState a) - 1)) = - 1"
      by (intro SCENE_NAMES_indexOf_undefined) simp
    then show ?thesis
      using hi assms by (simp add: previousScene_high switchScene_globalState)
  qed
qed

lemma previousScene_iterated_nonzero:
  "currentScene (globalState a) \<noteq> 0 \<Longrightarrow>
   currentScene (globalState (fst ((previousScene ^^ n) (a, b)))) \<noteq> 0"
proof (induction n)
  case 0
  then show ?case by simp
next
  case (Suc n)
  obtain a' b' where st: "(previousScene ^^ n) (a, b) = (a', b')"
    by (cases "(previousScene ^^ n) (a, b)") auto
  have "currentScene (globalState a') \<noteq> 0"
    using Suc st by simp
  then have "currentScene (globalState (fst (previousScene (a', b')))) \<noteq> 0"
    by (rule previousScene_nonzero)
  then show ?case by (simp add: st)
qed

text \<open>
  Claim C10. At index 0 or 1 (and below) \<^verbatim>\<open>previousScene\<close> changes nothing; at an
  index from 2 to 7 it is \<^verbatim>\<open>switchScene\<close> of the name at the index before, which
  then is the current index, with that name's registry entry active. So from a state whose index is
  not 0, no number of backward steps makes index 0 current.
\<close>

theorem previousScene_never_loading:
  "(currentScene (globalState a) \<le> 1 \<longrightarrow> previousScene (a, b) = (a, b)) \<and>
   (2 \<le> currentScene (globalState a) \<and> currentScene (globalState a) \<le> 7 \<longrightarrow>
      previousScene (a, b) =
        switchScene (js_index SCENE_NAMES (currentScene (globalState a) - 1)) (a, b) \<and>
      js_index SCENE_NAMES (currentScene (globalState a) - 1) \<noteq> None \<and>
      currentScene (globalState (fst (previousScene (a, b)))) = currentScene (globalState a) - 1 \<and>
      App_currentScene (fst (previousScene (a, b))) =
        scene_lookup a (js_index SCENE_NAMES (currentScene (globalState a) - 1))) \<and>
   (currentScene (globalState a) \<noteq> 0 \<longrightarrow>
      currentScene (globalState (fst ((previousScene ^^ n) (a, b)))) \<noteq> 0)"
proof (intro conjI impI)
  show "previousScene (a, b) = (a, b)" if "currentScene (globalState a) \<le> 1"
    using that by (rule previousScene_low)
  show "currentScene (globalState (fst ((previousScene ^^ n) (a, b)))) \<noteq> 0"
    if "currentScene (globalState a) \<noteq> 0"
    using that by (rule previousScene_iterated_nonzero)
next
  assume r: "2 \<le> currentScene (globalState a) \<and> currentScene (globalState a) \<le> 7"
  let ?prev = "currentScene (globalState a) - 1"
  have eq: "previousScene (a, b) = switchScene (js_index SCENE_NAMES ?prev) (a, b)"
    using r by (intro previousScene_high) simp
  show "previousScene (a, b) = switchScene (js_index SCENE_NAMES ?prev) (a, b)" by (rule eq)
  show "js_index SCENE_NAMES ?prev \<noteq> None"
    using r by (simp add: js_index_def length_SCENE_NAMES)
  have idx: "SCENE_NAMES_indexOf (js_index SCENE_NAMES ?prev) = ?prev"
    using r by (intro SCENE_NAMES_indexOf_at) simp_all
  show "currentScene (globalState (fst (previousScene (a, b)))) = ?prev"
    using r by (simp add: eq switchScene_globalState idx)
  show "App_currentScene (fst (previousScene (a, b))) = scene_lookup a (js_index SCENE_NAMES ?prev)"
    using switchScene_app_fields [of "js_index SCENE_NAMES ?prev" a b] by (simp add: eq)
qed

lemma checkSceneProgression_noop:
  "\<not> canProgress (globalState a) \<or> progressGuard a \<Longrightarrow> checkSceneProgression (a, b) = (a, b)"
  by (auto simp add: checkSceneProgression_def getCanProgress_def)

lemma checkSceneProgression_intro:
  assumes "canProgress (globalState a)" "\<not> progressGuard a" "currentScene (globalState a) = 0"
  shows "checkSceneProgression (a, b) =
    (fst (switchScene (js_index SCENE_NAMES (getSavedScene b)) (engage a, b)),
     setTimeout ReleaseProgressGuard 500
       (snd (switchScene (js_index SCENE_NAMES (getSavedScene b)) (engage a, b))))"
  using assms
  by (simp add: checkSceneProgression_def getCanProgress_def Let_def engage_def split: prod.splits)

lemma App_nextScene_eq:
  "App_nextScene (a, b) =
    (fst (nextScene (globalState a, b)),
     a\<lparr>globalState := fst (snd (nextScene (globalState a, b)))\<rparr>,
     snd (snd (nextScene (globalState a, b))))"
  by (simp add: App_nextScene_def split: prod.splits)

lemma checkSceneProgression_advance:
  assumes "canProgress (globalState a)" "\<not> progressGuard a" "currentScene (globalState a) \<noteq> 0"
    "currentScene (globalState a) < 7"
  shows "checkSceneProgression (a, b) =
    (let a3 = (engage a)\<lparr>globalState := fst (setScene (currentScene (globalState a) + 1) (globalState (engage a), b))\<rparr>;
         b3 = snd (setScene (currentScene (globalState a) + 1) (globalState (engage a), b));
         sw = switchScene (js_index SCENE_NAMES (currentScene (globalState a3))) (a3, b3)
     in (fst sw, setTimeout ReleaseProgressGuard 500 (snd sw)))"
  using assms
  by (simp add: checkSceneProgression_def getCanProgress_def Let_def engage_def App_nextScene_eq
      nextScene_def length_sceneNames setCanProgress_def split: prod.splits)

lemma checkSceneProgression_last:
  assumes "canProgress (globalState a)" "\<not> progressGuard a" "7 \<le> currentScene (globalState a)"
  shows "checkSceneProgression (a, b) = (engage a, setTimeout ReleaseProgressGuard 500 b)"
  using assms
  by (simp add: checkSceneProgression_def getCanProgress_def Let_def engage_def App_nextScene_eq
      nextScene_def length_sceneNames setCanProgress_def split: prod.splits)

lemma scene_swaps_setTimeout [simp]: "scene_swaps (setTimeout act ms b) = scene_swaps b"
  by (simp add: scene_swaps_def setTimeout_def)

lemma checkSceneProgression_first:
  assumes "canProgress (globalState a)" "\<not> progressGuard a"
  shows "progressGuard (fst (checkSceneProgression (a, b))) \<and>
     \<not> canProgress (globalState (fst (checkSceneProgression (a, b)))) \<and>
     scene_swaps (snd (checkSceneProgression (a, b))) =
       scene_swaps b + (if currentScene (globalState a) < 7 then 1 else 0)"
proof -
  consider (intro) "currentScene (globalState a) = 0"
    | (advance) "currentScene (globalState a) \<noteq> 0" "currentScene (globalState a) < 7"
    | (last) "7 \<le> currentScene (globalState a)"
    by linarith
  then show ?thesis
  proof cases
    case intro
    show ?thesis
      using intro
      by (simp add: checkSceneProgression_intro [OF assms intro] switchScene_flags
          scene_swaps_switchScene engage_def setCanProgress_def)
  next
    case advance
    have nb: "scene_swaps (snd (setScene i (g, b))) = scene_swaps b" for i g
    proof (cases "0 \<le> i \<and> i < 8")
      case True
      then show ?thesis
        by (simp add: setScene_browser scene_swaps_def switch_lines)
    next
      case False
      then have "setScene i (g, b) = (g, b)" by (intro setScene_out_of_range) auto
      then show ?thesis by simp
    qed
    have cp: "canProgress (fst (setScene i (g, b))) = canProgress g" for i g
      by (simp add: setScene_def Let_def)
    show ?thesis
      using advance
      by (simp add: checkSceneProgression_advance [OF assms advance] Let_def switchScene_flags
          scene_swaps_switchScene engage_def setCanProgress_def nb cp)
  next
    case last
    show ?thesis
      using last
      by (simp add: checkSceneProgression_last [OF assms last] engage_def setCanProgress_def)
  qed
qed

lemma checkSceneProgression_target:
  assumes "canProgress (globalState a)" "\<not> progressGuard a"
  shows "(currentScene (globalState a) = 0 \<longrightarrow>
            currentScene (globalState (fst (checkSceneProgression (a, b)))) = getSavedScene b) \<and>
         (1 \<le> currentScene (globalState a) \<and> currentScene (globalState a) < 7 \<longrightarrow>
            currentScene (globalState (fst (checkSceneProgression (a, b)))) =
              currentScene (globalState a) + 1)"
proof (intro conjI impI)
  assume z: "currentScene (globalState a) = 0"
  have r: "0 \<le> getSavedScene b" "getSavedScene b \<le> 7"
    using getSavedScene_range [of b] by simp_all
  have idx: "SCENE_NAMES_indexOf (js_index SCENE_NAMES (getSavedScene b)) = getSavedScene b"
    using r by (rule SCENE_NAMES_indexOf_at)
  show "currentScene (globalState (fst (checkSceneProgression (a, b)))) = getSavedScene b"
    using r by (simp add: checkSceneProgression_intro [OF assms z] switchScene_globalState idx)
next
  assume m: "1 \<le> currentScene (globalState a) \<and> currentScene (globalState a) < 7"
  then have nz: "currentScene (globalState a) \<noteq> 0" and lt: "currentScene (globalState a) < 7"
    by simp_all
  let ?next = "currentScene (globalState a) + 1"
  have r: "0 \<le> ?next" "?next \<le> 7" "?next < 8" using m by simp_all
  have idx: "SCENE_NAMES_indexOf (js_index SCENE_NAMES ?next) = ?next"
    using r(1,2) by (rule SCENE_NAMES_indexOf_at)
  have cur: "currentScene (fst (setScene ?next (g, b))) = ?next" for g
    by (simp add: setScene_state [OF r(1) r(3)])
  show "currentScene (globalState (fst (checkSceneProgression (a, b)))) = ?next"
    using r
    by (simp add: checkSceneProgression_advance [OF assms nz lt] Let_def cur
        switchScene_globalState idx)
qed

lemma checkSceneProgression_timer:
  assumes "canProgress (globalState a)" "\<not> progressGuard a"
  shows "(500, ReleaseProgressGuard) \<in> set (timers (snd (checkSceneProgression (a, b))))"
proof -
  consider (intro) "currentScene (globalState a) = 0"
    | (advance) "currentScene (globalState a) \<noteq> 0" "currentScene (globalState a) < 7"
    | (last) "7 \<le> currentScene (globalState a)"
    by linarith
  then show ?thesis
  proof cases
    case intro
    show ?thesis
      by (simp add: checkSceneProgression_intro [OF assms intro] setTimeout_def)
  next
    case advance
    show ?thesis
      by (simp add: checkSceneProgression_advance [OF assms advance] Let_def setTimeout_def)
  next
    case last
    show ?thesis
      by (simp add: checkSceneProgression_last [OF assms last] setTimeout_def)
  qed
qed

lemma run_timers_fold:
  "globalState (fst (fold (\<lambda>t. run_timer_action (snd t)) ts (a, b))) = globalState a \<and>
   progressGuard (fst (fold (\<lambda>t. run_timer_action (snd t)) ts (a, b))) =
     (progressGuard a \<and> ReleaseProgressGuard \<notin> snd ` set ts)"
proof (induction ts arbitrary: a b)
  case Nil
  then show ?case by simp
next
  case (Cons t ts)
  show ?case
  proof (cases "snd t")
    case HideOverlay
    then show ?thesis
      using Cons [of a "b\<lparr>overlayHidden := map_option (\<lambda>h. True) (overlayHidden b)\<rparr>"]
      by (simp add: run_timer_action_def)
  next
    case ReleaseProgressGuard
    then show ?thesis
      using Cons [of "a\<lparr>progressGuard := False\<rparr>" b]
      by (simp add: run_timer_action_def)
  qed
qed

lemma fire_timers_app:
  "globalState (fst (fire_timers (a, b))) = globalState a \<and>
   progressGuard (fst (fire_timers (a, b))) =
     (progressGuard a \<and> ReleaseProgressGuard \<notin> snd ` set (timers b))"
  using run_timers_fold [of "timers b" a "b\<lparr>timers := []\<rparr>"] by (simp add: fire_timers_def)

lemma advance_round_step:
  assumes "\<not> progressGuard a"
  shows "\<not> progressGuard (fst (advance_round (a, b))) \<and>
     (currentScene (globalState a) = 0 \<longrightarrow>
        currentScene (globalState (fst (advance_round (a, b)))) = getSavedScene b) \<and>
     (1 \<le> currentScene (globalState a) \<and> currentScene (globalState a) < 7 \<longrightarrow>
        currentScene (globalState (fst (advance_round (a, b)))) = currentScene (globalState a) + 1)"
proof -
  let ?a = "a\<lparr>globalState := setCanProgress True (globalState a)\<rparr>"
  have c: "canProgress (globalState ?a)" and g: "\<not> progressGuard ?a"
    and cur: "currentScene (setCanProgress True (globalState a)) = currentScene (globalState a)"
    using assms by (simp_all add: setCanProgress_def)
  obtain a1 b1 where st: "checkSceneProgression (?a, b) = (a1, b1)"
    by (cases "checkSceneProgression (?a, b)") auto
  have t: "(500, ReleaseProgressGuard) \<in> set (timers b1)"
    using checkSceneProgression_timer [OF c g, of b] st by simp
  then have rel: "ReleaseProgressGuard \<in> snd ` set (timers b1)" by force
  have round: "advance_round (a, b) = fire_timers (a1, b1)"
    by (simp add: advance_round_def request_advance_def st)
  show ?thesis
    using checkSceneProgression_target [OF c g, of b] rel
    by (simp add: round fire_timers_app st cur)
qed

lemma valid_index_switchScene:
  "valid_index (globalState a) \<Longrightarrow> valid_index (globalState (fst (switchScene n (a, b))))"
  using SCENE_NAMES_indexOf_range [of n]
  by (simp add: switchScene_globalState valid_index_def length_sceneNames)

lemma valid_index_previousScene:
  "valid_index (globalState a) \<Longrightarrow> valid_index (globalState (fst (previousScene (a, b))))"
  by (cases "currentScene (globalState a) \<le> 1")
    (simp_all add: previousScene_low previousScene_high valid_index_switchScene)

lemma valid_index_checkSceneProgression:
  assumes "valid_index (globalState a)"
  shows "valid_index (globalState (fst (checkSceneProgression (a, b))))"
proof (cases "canProgress (globalState a) \<and> \<not> progressGuard a")
  case False
  then show ?thesis using assms by (simp add: checkSceneProgression_noop)
next
  case True
  then have c: "canProgress (globalState a)" and g: "\<not> progressGuard a" by simp_all
  have e: "valid_index (globalState (engage a))"
    using assms by (simp add: engage_def setCanProgress_def valid_index_def)
  consider (intro) "currentScene (globalState a) = 0"
    | (advance) "currentScene (globalState a) \<noteq> 0" "currentScene (globalState a) < 7"
    | (last) "7 \<le> currentScene (globalState a)"
    by linarith
  then show ?thesis
  proof cases
    case intro
    show ?thesis
      by (simp add: checkSceneProgression_intro [OF c g intro] valid_index_switchScene [OF e])
  next
    case advance
    let ?a3 = "(engage a)\<lparr>globalState :=
        fst (setScene (currentScene (globalState a) + 1) (globalState (engage a), b))\<rparr>"
    have "valid_index (globalState ?a3)"
      using valid_index_setScene [OF e] by simp
    then show ?thesis
      by (simp add: checkSceneProgression_advance [OF c g advance] Let_def valid_index_switchScene)
  next
    case last
    show ?thesis
      using e by (simp add: checkSceneProgression_last [OF c g last])
  qed
qed

text \<open>
  That state is reached: a fresh page, the constructor, and seven rounds of
  advancing leave the controller at index 7 with the guard clear.
\<close>

lemma exit_reachable:
  "currentScene (globalState (fst ((advance_round ^^ 7) (App_new Browser_fresh)))) = 7 \<and>
   \<not> progressGuard (fst ((advance_round ^^ 7) (App_new Browser_fresh)))"
proof -
  have step: "\<not> progressGuard (fst s) \<Longrightarrow> 1 \<le> currentScene (globalState (fst s)) \<Longrightarrow>
      currentScene (globalState (fst s)) < 7 \<Longrightarrow>
      \<not> progressGuard (fst (advance_round s)) \<and>
      currentScene (globalState (fst (advance_round s))) = currentScene (globalState (fst s)) + 1" for s
    using advance_round_step [of "fst s" "snd s"] by simp
  let ?s0 = "App_new Browser_fresh"
  have g0: "\<not> progressGuard (fst ?s0)" and c0: "currentScene (globalState (fst ?s0)) = 0"
    and st0: "getSavedScene (snd ?s0) = 1"
    by (simp_all add: App_new_def initScenes_def switchScene_def scene_lookup_def template_name_def
      SCENE_NAMES_indexOf_def SCENE_NAMES_def App_setScene_def setScene_def sceneNames_def
      updateProgressIndicator_def console_log_def fadeTransition_def
      setTimeout_def GlobalState_new_def Browser_fresh_def
      js_index_def set_display_def arrow_ids_disable_def
      getSavedScene_def getSavedScene_try_def getItem_def Let_def)
  let ?s1 = "advance_round ?s0"
  have s1: "\<not> progressGuard (fst ?s1) \<and> currentScene (globalState (fst ?s1)) = 1"
    using advance_round_step [of "fst ?s0" "snd ?s0"] g0 c0 st0 by simp
  let ?s2 = "advance_round ?s1"
  have s2: "\<not> progressGuard (fst ?s2) \<and> currentScene (globalState (fst ?s2)) = 2"
    using step [of ?s1] s1 by simp
  let ?s3 = "advance_round ?s2"
  have s3: "\<not> progressGuard (fst ?s3) \<and> currentScene (globalState (fst ?s3)) = 3"
    using step [of ?s2] s2 by simp
  let ?s4 = "advance_round ?s3"
  have s4: "\<not> progressGuard (fst ?s4) \<and> currentScene (globalState (fst ?s4)) = 4"
    using step [of ?s3] s3 by simp
  let ?s5 = "advance_round ?s4"
  have s5: "\<not> progressGuard (fst ?s5) \<and> currentScene (globalState (fst ?s5)) = 5"
    using step [of ?s4] s4 by simp
  let ?s6 = "advance_round ?s5"
  have s6: "\<not> progressGuard (fst ?s6) \<and> currentScene (globalState (fst ?s6)) = 6"
    using step [of ?s5] s5 by simp
  let ?s7 = "advance_round ?s6"
  have s7: "\<not> progressGuard (fst ?s7) \<and> currentScene (globalState (fst ?s7)) = 7"
    using step [of ?s6] s6 by simp
  have "(advance_round ^^ 7) ?s0 = ?s7"
    by (simp add: eval_nat_numeral)
  then show ?thesis using s7 by simp
qed

text \<open>
  Claim C1, as amended. With the advance flag set and the guard clear, the first
  progression check engages the guard and clears the flag, and a second check
  right after it (no timer has fired, nothing set the flag again) changes nothing
  at all. The two checks together swap the scene once when the index is below 7:
  from index 0 to the saved scene, from an index from 1 to 6 to the next one. At the
  last index 7 \<^verbatim>\<open>nextScene\<close> fails and no scene is swapped: only the guard, the flag
  and the guard's timer change.
\<close>

theorem checkSceneProgression_guarded:
  "canProgress (globalState a) \<and> \<not> progressGuard a \<longrightarrow>
     progressGuard (fst (checkSceneProgression (a, b))) \<and>
     \<not> canProgress (globalState (fst (checkSceneProgression (a, b)))) \<and>
     checkSceneProgression (checkSceneProgression (a, b)) = checkSceneProgression (a, b) \<and>
     scene_swaps (snd (checkSceneProgression (checkSceneProgression (a, b)))) =
       scene_swaps b + (if currentScene (globalState a) < 7 then 1 else 0) \<and>
     (currentScene (globalState a) = 0 \<longrightarrow>
        currentScene (globalState (fst (checkSceneProgression (a, b)))) = getSavedScene b) \<and>
     (1 \<le> currentScene (globalState a) \<and> currentScene (globalState a) < 7 \<longrightarrow>
        currentScene (globalState (fst (checkSceneProgression (a, b)))) =
          currentScene (globalState a) + 1) \<and>
     (7 \<le> currentScene (globalState a) \<longrightarrow>
        checkSceneProgression (a, b) = (engage a, setTimeout ReleaseProgressGuard 500 b))"
proof (intro impI)
  assume pre: "canProgress (globalState a) \<and> \<not> progressGuard a"
  then have c: "canProgress (globalState a)" and g: "\<not> progressGuard a" by simp_all
  obtain a1 b1 where st: "checkSceneProgression (a, b) = (a1, b1)"
    by (cases "checkSceneProgression (a, b)") auto
  have first: "progressGuard a1 \<and> \<not> canProgress (globalState a1) \<and>
      scene_swaps b1 = scene_swaps b + (if currentScene (globalState a) < 7 then 1 else 0)"
    using checkSceneProgression_first [OF c g, of b] st by simp
  then have again: "checkSceneProgression (a1, b1) = (a1, b1)"
    by (intro checkSceneProgression_noop) simp
  have last: "checkSceneProgression (a, b) = (engage a, setTimeout ReleaseProgressGuard 500 b)"
    if "7 \<le> currentScene (globalState a)"
    using c g that by (rule checkSceneProgression_last)
  show "progressGuard (fst (checkSceneProgression (a, b))) \<and>
     \<not> canProgress (globalState (fst (checkSceneProgression (a, b)))) \<and>
     checkSceneProgression (checkSceneProgression (a, b)) = checkSceneProgression (a, b) \<and>
     scene_swaps (snd (checkSceneProgression (checkSceneProgression (a, b)))) =
       scene_swaps b + (if currentScene (globalState a) < 7 then 1 else 0) \<and>
     (currentScene (globalState a) = 0 \<longrightarrow>
        currentScene (globalState (fst (checkSceneProgression (a, b)))) = getSavedScene b) \<and>
     (1 \<le> currentScene (globalState a) \<and> currentScene (globalState a) < 7 \<longrightarrow>
        currentScene (globalState (fst (checkSceneProgression (a, b)))) =
          currentScene (globalState a) + 1) \<and>
     (7 \<le> currentScene (globalState a) \<longrightarrow>
        checkSceneProgression (a, b) = (engage a, setTimeout ReleaseProgressGuard 500 b))"
    using first again last checkSceneProgression_target [OF c g, of b]
    by (simp add: st)
qed

text \<open>
  Claim C1 as stated fails on the last scene: the flag is set once, the guard is
  clear, and two progression checks swap no scene.
\<close>

theorem checkSceneProgression_last_scene_counterexample:
  "canProgress (globalState (fst App_at_exit)) \<and>
   progressGuard (fst App_at_exit) = False \<and>
   currentScene (globalState (fst App_at_exit)) = 7 \<and>
   scene_swaps (snd (checkSceneProgression (checkSceneProgression App_at_exit))) =
     scene_swaps (snd App_at_exit)"
proof -
  let ?a = "fst App_at_exit" and ?b = "snd App_at_exit"
  have c: "canProgress (globalState ?a)" and g: "\<not> progressGuard ?a"
    and l: "7 \<le> currentScene (globalState ?a)" and cur: "currentScene (globalState ?a) = 7"
    by (simp_all add: App_at_exit_def GlobalState_new_def)
  have one: "checkSceneProgression App_at_exit =
      (engage ?a, setTimeout ReleaseProgressGuard 500 ?b)"
    using checkSceneProgression_last [OF c g l, of ?b] by simp
  have two: "checkSceneProgression (engage ?a, setTimeout ReleaseProgressGuard 500 ?b) =
      (engage ?a, setTimeout ReleaseProgressGuard 500 ?b)"
    by (intro checkSceneProgression_noop) (simp add: engage_def)
  show ?thesis
    using c g cur by (simp add: one two)
qed

lemma App_new_fresh: "fst (App_new Browser_fresh) = App_loading"
  by (simp add: App_new_def App_loading_def initScenes_def switchScene_def scene_lookup_def
      template_name_def SCENE_NAMES_indexOf_def SCENE_NAMES_def App_setScene_def setScene_def
      sceneNames_def GlobalState_new_def Let_def)

text \<open>
  The controller as constructed, asked for the main street, for which no scene is
  built: index 2 becomes current, no scene is active, the overlay is shown.
\<close>

theorem switchScene_unbuilt_witness:
  "scene_lookup App_loading (Some ''mainStreet'') = None \<and>
   App_currentScene (fst (switchScene (Some ''mainStreet'') (App_loading, Browser_fresh))) = None \<and>
   currentScene (globalState (fst (switchScene (Some ''mainStreet'') (App_loading, Browser_fresh)))) = 2 \<and>
   timers (snd (switchScene (Some ''mainStreet'') (App_loading, Browser_fresh))) = [(300, HideOverlay)]"
proof -
  have un: "scene_lookup App_loading (Some ''mainStreet'') = None"
    by (simp add: scene_lookup_def App_loading_def template_name_def)
  have mem: "''mainStreet'' \<in> set SCENE_NAMES" and idx: "indexOf SCENE_NAMES ''mainStreet'' = 2"
    by (simp_all add: SCENE_NAMES_def)
  have page: "timers Browser_fresh = []" "overlayHidden Browser_fresh = Some False"
    by (simp_all add: Browser_fresh_def)
  note t = switchScene_unbuilt [of App_loading "Some ''mainStreet''" Browser_fresh, THEN mp, OF un]
  let ?r = "switchScene (Some ''mainStreet'') (App_loading, Browser_fresh)"
  from t have active: "App_currentScene (fst ?r) = None" by blast
  from t mem have cur: "currentScene (globalState (fst ?r)) = indexOf SCENE_NAMES ''mainStreet''"
    by blast
  from t have fade: "timers (snd ?r) =
      timers Browser_fresh @ (if overlayHidden Browser_fresh = None then [] else [(300, HideOverlay)])"
    by blast
  show ?thesis
    using un active cur fade unfolding idx page by simp
qed

text \<open>From index 3 one step back reaches index 2; from index 1 nothing happens.\<close>

theorem previousScene_never_loading_witness:
  "currentScene (globalState (fst (previousScene
      (App_loading\<lparr>globalState := GlobalState_new\<lparr>currentScene := 3\<rparr>\<rparr>, Browser_fresh)))) = 2 \<and>
   previousScene (App_loading\<lparr>globalState := GlobalState_new\<lparr>currentScene := 1\<rparr>\<rparr>, Browser_fresh) =
     (App_loading\<lparr>globalState := GlobalState_new\<lparr>currentScene := 1\<rparr>\<rparr>, Browser_fresh) \<and>
   currentScene (globalState (fst ((previousScene ^^ 5)
      (App_loading\<lparr>globalState := GlobalState_new\<lparr>currentScene := 3\<rparr>\<rparr>, Browser_fresh)))) \<noteq> 0"
proof -
  let ?a3 = "App_loading\<lparr>globalState := GlobalState_new\<lparr>currentScene := 3\<rparr>\<rparr>"
  let ?a1 = "App_loading\<lparr>globalState := GlobalState_new\<lparr>currentScene := 1\<rparr>\<rparr>"
  have c3: "currentScene (globalState ?a3) = 3" and c1: "currentScene (globalState ?a1) = 1"
    by simp_all
  have r3: "2 \<le> currentScene (globalState ?a3) \<and> currentScene (globalState ?a3) \<le> 7"
    and n3: "currentScene (globalState ?a3) \<noteq> 0"
    and r1: "currentScene (globalState ?a1) \<le> 1"
    by simp_all
  have step_back: "currentScene (globalState (fst (previousScene (?a3, Browser_fresh)))) =
      currentScene (globalState ?a3) - 1"
    using previousScene_never_loading [of ?a3 Browser_fresh 5] r3 by blast
  have never: "currentScene (globalState (fst ((previousScene ^^ 5) (?a3, Browser_fresh)))) \<noteq> 0"
    using previousScene_never_loading [of ?a3 Browser_fresh 5] n3 by blast
  have stay: "previousScene (?a1, Browser_fresh) = (?a1, Browser_fresh)"
    using previousScene_never_loading [of ?a1 Browser_fresh 0] r1 by blast
  show ?thesis
    using step_back never stay unfolding c3 by simp
qed

text \<open>
  The loading scene has finished and the storage holds \<^verbatim>\<open>"4"\<close>: two checks swap to
  scene 4 once.
\<close>

theorem checkSceneProgression_guarded_witness:
  "canProgress (globalState (App_loading\<lparr>globalState := GlobalState_new\<lparr>canProgress := True\<rparr>\<rparr>)) \<and>
   progressGuard (App_loading\<lparr>globalState := GlobalState_new\<lparr>canProgress := True\<rparr>\<rparr>) = False \<and>
   currentScene (globalState (fst (checkSceneProgression (checkSceneProgression
      (App_loading\<lparr>globalState := GlobalState_new\<lparr>canProgress := True\<rparr>\<rparr>,
       stored ''4'' Browser_fresh))))) = 4 \<and>
   scene_swaps (snd (checkSceneProgression (checkSceneProgression
      (App_loading\<lparr>globalState := GlobalState_new\<lparr>canProgress := True\<rparr>\<rparr>,
       stored ''4'' Browser_fresh)))) = 1"
proof -
  let ?a = "App_loading\<lparr>globalState := GlobalState_new\<lparr>canProgress := True\<rparr>\<rparr>"
  let ?b = "stored ''4'' Browser_fresh"
  have c: "canProgress (globalState ?a)" and g: "\<not> progressGuard ?a"
    and cur: "currentScene (globalState ?a) = 0"
    by (simp_all add: App_loading_def GlobalState_new_def)
  have p4: "parseInt10 ''4'' = Some 4"
    by (simp add: parseInt10_def is_space_def is_digit_def digit_of_def Let_def digits_value_def
        digit_val_def)
  have saved: "getSavedScene ?b = 4"
    by (simp add: getSavedScene_unfold stored_item_stored p4)
  have none: "scene_swaps ?b = 0"
    by (simp add: scene_swaps_def stored_def Browser_fresh_def)
  have again: "checkSceneProgression (checkSceneProgression (?a, ?b)) = checkSceneProgression (?a, ?b)"
    using checkSceneProgression_guarded [of ?a ?b] c g by blast
  have target: "currentScene (globalState (fst (checkSceneProgression (?a, ?b)))) = getSavedScene ?b"
    using checkSceneProgression_guarded [of ?a ?b] c g cur by blast
  have swaps: "scene_swaps (snd (checkSceneProgression (checkSceneProgression (?a, ?b)))) =
      scene_swaps ?b + (if currentScene (globalState ?a) < 7 then 1 else 0)"
    using checkSceneProgression_guarded [of ?a ?b] c g by blast
  show ?thesis
    using c g target swaps unfolding again cur saved none by simp
qed

section \<open>Properties of the loading scene\<close>

lemma easeInQuart_mono:
  assumes "0 \<le> s" "s \<le> t"
  shows "easeInQuart s \<le> easeInQuart t"
proof -
  have "s ^ 4 \<le> t ^ 4" using assms by (rule power_mono [rotated])
  then show ?thesis by (simp add: easeInQuart_def power4_eq_xxxx)
qed

lemma cube_mono: "(x::real) \<le> y \<Longrightarrow> x ^ 3 \<le> y ^ 3"
  by (rule power_mono_odd) simp_all

lemma easeInOutCubic_mono:
  assumes "s \<le> t"
  shows "easeInOutCubic s \<le> easeInOutCubic t"
proof -
  consider (low) "t < 0.5" | (high) "0.5 \<le> s" | (across) "s < 0.5" "0.5 \<le> t"
    using assms by linarith
  then show ?thesis
  proof cases
    case low
    then have "s < 0.5" using assms by simp
    moreover have "s ^ 3 \<le> t ^ 3" using assms by (rule cube_mono)
    ultimately show ?thesis
      using low by (simp add: easeInOutCubic_def power3_eq_cube mult.assoc)
  next
    case high
    then have t: "\<not> t < 0.5" and s: "\<not> s < 0.5" using assms by simp_all
    have "(- 2 * t + 2) ^ 3 \<le> (- 2 * s + 2) ^ 3"
      using assms by (intro cube_mono) simp
    then show ?thesis
      using t s by (simp add: easeInOutCubic_def)
  next
    case across
    have "s ^ 3 \<le> (1 / 2) ^ 3" using across(1) by (intro cube_mono) simp
    then have lo: "4 * s * s * s \<le> 1 / 2"
      by (simp add: power3_eq_cube mult.assoc)
    have "(- 2 * t + 2) ^ 3 \<le> 1 ^ 3" using across(2) by (intro cube_mono) simp
    then have hi: "1 / 2 \<le> 1 - (- 2 * t + 2) ^ 3 / 2" by simp
    show ?thesis
      using across lo hi by (simp add: easeInOutCubic_def)
  qed
qed

text \<open>
  Claim C8. Both ease functions map 0 to 0 and 1 to 1, and on the interval from 0 to 1
  neither ever decreases.
\<close>

theorem ease_boundary_monotone:
  "easeInOutCubic 0 = 0 \<and> easeInOutCubic 1 = 1 \<and> easeInQuart 0 = 0 \<and> easeInQuart 1 = 1 \<and>
   (0 \<le> s \<and> s \<le> t \<and> t \<le> 1 \<longrightarrow>
      easeInOutCubic s \<le> easeInOutCubic t \<and> easeInQuart s \<le> easeInQuart t)"
proof (intro conjI impI)
  show "easeInOutCubic 0 = 0" "easeInOutCubic 1 = 1"
    by (simp_all add: easeInOutCubic_def)
  show "easeInQuart 0 = 0" "easeInQuart 1 = 1"
    by (simp_all add: easeInQuart_def)
next
  assume r: "0 \<le> s \<and> s \<le> t \<and> t \<le> 1"
  then show "easeInOutCubic s \<le> easeInOutCubic t" by (intro easeInOutCubic_mono) simp
  from r show "easeInQuart s \<le> easeInQuart t" by (intro easeInQuart_mono) simp_all
qed

text \<open>The cubic at a quarter and three quarters, the quartic at a half and at 1.\<close>

theorem ease_boundary_monotone_witness:
  "easeInOutCubic (1 / 4) = 1 / 16 \<and> easeInOutCubic (3 / 4) = 15 / 16 \<and>
   easeInOutCubic (1 / 4) \<le> easeInOutCubic (3 / 4) \<and>
   easeInQuart (1 / 2) = 1 / 16 \<and> easeInQuart (1 / 2) \<le> easeInQuart 1"
proof -
  have a: "(0::real) \<le> 1 / 4 \<and> (1 / 4 :: real) \<le> 3 / 4 \<and> (3 / 4 :: real) \<le> 1"
    and b: "(0::real) \<le> 1 / 2 \<and> (1 / 2 :: real) \<le> 1 \<and> (1::real) \<le> 1"
    by simp_all
  have m1: "easeInOutCubic (1 / 4) \<le> easeInOutCubic (3 / 4)"
    using ease_boundary_monotone [of "1 / 4" "3 / 4"] a by blast
  have m2: "easeInQuart (1 / 2) \<le> easeInQuart 1"
    using ease_boundary_monotone [of "1 / 2" 1] b by blast
  have v: "easeInOutCubic (1 / 4) = 1 / 16" "easeInOutCubic (3 / 4) = 15 / 16"
    "easeInQuart (1 / 2) = 1 / 16"
    by (simp_all add: easeInOutCubic_def easeInQuart_def power3_eq_cube)
  show ?thesis using m1 m2 v by simp
qed

lemma orbit_fold:
  "\<exists>A P. fold (orbit_particle speed) ns s = s\<lparr>particleAngles := A, positions := P\<rparr> \<and>
         length A = length (particleAngles s)"
proof (induction ns arbitrary: s)
  case Nil
  have "s = s\<lparr>particleAngles := particleAngles s, positions := positions s\<rparr>" by simp
  then show ?case by (metis fold_simps(1))
next
  case (Cons n ns)
  let ?s1 = "orbit_particle speed n s"
  obtain A P where ih: "fold (orbit_particle speed) ns ?s1 = ?s1\<lparr>particleAngles := A, positions := P\<rparr>"
    and len: "length A = length (particleAngles ?s1)"
    using Cons [of ?s1] by blast
  have "?s1\<lparr>particleAngles := A, positions := P\<rparr> = s\<lparr>particleAngles := A, positions := P\<rparr>"
    by (simp add: orbit_particle_def Let_def)
  moreover have "length (particleAngles ?s1) = length (particleAngles s)"
    by (simp add: orbit_particle_def Let_def)
  ultimately show ?case using ih len by auto
qed

lemma orbitParticles_frame:
  "\<exists>A P. orbitParticles delta s = s\<lparr>particleAngles := A, positions := P\<rparr> \<and>
         length A = length (particleAngles s)"
  using orbit_fold [of "delta * 0.0004" "[0..<length (particleAngles s)]" s]
  by (simp add: orbitParticles_def Let_def)

lemma set_display_fold:
  "\<exists>E. fold (set_display v) ids b = b\<lparr>elementDisplay := E\<rparr> \<and>
       (\<forall>ident. E ident =
          (if ident \<in> set ids then map_option (\<lambda>old. v) (elementDisplay b ident)
           else elementDisplay b ident))"
proof (induction ids arbitrary: b)
  case Nil
  have "b = b\<lparr>elementDisplay := elementDisplay b\<rparr>" by simp
  then show ?case by (metis empty_iff empty_set fold_simps(1))
next
  case (Cons x xs)
  let ?b1 = "set_display v x b"
  obtain E where ih: "fold (set_display v) xs ?b1 = ?b1\<lparr>elementDisplay := E\<rparr>"
    and e: "\<And>ident. E ident =
          (if ident \<in> set xs then map_option (\<lambda>old. v) (elementDisplay ?b1 ident)
           else elementDisplay ?b1 ident)"
    using Cons [of ?b1] by blast
  have b1: "?b1\<lparr>elementDisplay := E\<rparr> = b\<lparr>elementDisplay := E\<rparr>"
    by (simp add: set_display_def split: option.splits)
  have d1: "elementDisplay ?b1 ident =
      (if ident = x then map_option (\<lambda>old. v) (elementDisplay b ident) else elementDisplay b ident)"
    for ident
    by (simp add: set_display_def split: option.splits)
  have "E ident =
          (if ident \<in> set (x # xs) then map_option (\<lambda>old. v) (elementDisplay b ident)
           else elementDisplay b ident)" for ident
    unfolding e d1 by (cases "elementDisplay b ident") auto
  then show ?case using ih b1 by auto
qed

lemma enableControls_shows_arrows:
  "blockLook (fst (enableControls (s, b))) = False \<and>
   (\<forall>ident \<in> set arrow_ids_enable.
      elementDisplay (snd (enableControls (s, b))) ident =
        map_option (\<lambda>old. []) (elementDisplay b ident))"
proof -
  obtain E where f: "fold (set_display []) arrow_ids_enable b = b\<lparr>elementDisplay := E\<rparr>"
    and e: "\<And>ident. E ident =
          (if ident \<in> set arrow_ids_enable then map_option (\<lambda>old. []) (elementDisplay b ident)
           else elementDisplay b ident)"
    using set_display_fold [of "[]" arrow_ids_enable b] by blast
  show ?thesis
    by (simp add: enableControls_def f e)
qed

lemma updateExitBurst_complete:
  assumes "EXIT_DURATION \<le> phaseTimer s" "exitStartRadii s \<noteq> None \<or> particleAngles s = []"
  shows "\<exists>s'. updateExitBurst dt (s, g, b) =
           Inr (s', setCanProgress True g, snd (enableControls (s, b))) \<and>
         isComplete s' \<and> \<not> blockLook s' \<and> phase s' = phase s"
proof -
  have t: "1 \<le> min (phaseTimer s / EXIT_DURATION) 1"
    using assms(1) by (simp add: EXIT_DURATION_def)
  show ?thesis
    using assms(2) t
    by (auto simp add: updateExitBurst_def Let_def enableControls_def)
qed

text \<open>The transition into \<^verbatim>\<open>exitBurst\<close> captures the start radii.\<close>

lemma updateTextPulse_captures_radii:
  assumes "phase s = TextPulse" "phase (fst (updateTextPulse dt (s, am))) = ExitBurst"
  shows "exitStartRadii (fst (updateTextPulse dt (s, am))) \<noteq> None"
  using assms by (simp add: updateTextPulse_def Let_def split: if_splits)

lemma update_complete_noop: "isComplete s \<Longrightarrow> update time delta (s, g, am, b) = Inr (s, g, am, b)"
  by (simp add: update_def)

lemma update_exitBurst_complete:
  assumes "phase s = ExitBurst" "\<not> isComplete s"
    "EXIT_DURATION \<le> phaseTimer s + delta * 0.001"
    "exitStartRadii s \<noteq> None \<or> particleAngles s = []"
  shows "\<exists>s'. update time delta (s, g, am, b) =
           Inr (s', setCanProgress True g, am, snd (enableControls (s, b))) \<and>
         isComplete s' \<and> \<not> blockLook s' \<and> phase s' = ExitBurst"
proof -
  let ?s3 = "s\<lparr>pulseTime := pulseTime s + delta * 0.001,
              phaseTimer := phaseTimer s + delta * 0.001,
              ringRotationZ := ringRotationZ s + delta * 0.0004\<rparr>"
  obtain A P where o: "orbitParticles delta ?s3 = ?s3\<lparr>particleAngles := A, positions := P\<rparr>"
    and len: "length A = length (particleAngles ?s3)"
    using orbitParticles_frame [of delta ?s3] by blast
  let ?s4 = "?s3\<lparr>particleAngles := A, positions := P\<rparr>"
  have pre: "EXIT_DURATION \<le> phaseTimer ?s4" "exitStartRadii ?s4 \<noteq> None \<or> particleAngles ?s4 = []"
    using assms(3,4) len by auto
  obtain s' where u: "updateExitBurst (delta * 0.001) (?s4, g, b) =
           Inr (s', setCanProgress True g, snd (enableControls (?s4, b)))"
    and p: "isComplete s'" "\<not> blockLook s'" "phase s' = phase ?s4"
    using updateExitBurst_complete [OF pre, of "delta * 0.001" g b] by blast
  have en: "snd (enableControls (?s4, b)) = snd (enableControls (s, b))"
    by (simp add: enableControls_def)
  have "update time delta (s, g, am, b) =
      Inr (s', setCanProgress True g, am, snd (enableControls (s, b)))"
    using assms(1,2) u o en by (simp add: update_def Let_def)
  then show ?thesis using p assms(1) by auto
qed

lemma updateDotExplode_wait:
  assumes "\<not> explodeStarted s" "\<not> (lastSinSign s > 0 \<and> sgn (sin (pulseTime s * 3)) \<le> 0)"
  shows "updateDotExplode dt s =
    s\<lparr>lastSinSign := sgn (sin (pulseTime s * 3)),
      dotScale := 1 + sin (pulseTime s * 3) * 0.3,
      lightIntensity := 1.5 + sin (pulseTime s * 3) * 0.8\<rparr>"
proof (cases "lastSinSign s > 0")
  case True
  then have "\<not> sgn (sin (pulseTime s * 3)) \<le> 0" using assms(2) by simp
  then show ?thesis
    using assms(1) True by (simp add: updateDotExplode_def Let_def)
next
  case False
  then show ?thesis
    using assms(1) by (simp add: updateDotExplode_def Let_def)
qed

lemma updateDotExplode_start:
  assumes "\<not> explodeStarted s" "lastSinSign s > 0" "sgn (sin (pulseTime s * 3)) \<le> 0"
    "0 \<le> dotPulseCount s"
  shows "updateDotExplode dt s =
    s\<lparr>dotPulseCount := dotPulseCount s + 1, explodeStarted := True, phaseTimer := 0,
      lastSinSign := sgn (sin (pulseTime s * 3)),
      dotScale := 1, dotOpacity := 1, lightIntensity := 1.5\<rparr>"
  using assms
  by (simp add: updateDotExplode_def Let_def DOT_PULSES_BEFORE_EXPLODE_def EXPLODE_DURATION_def
      easeInOutCubic_def)

lemma update_dotExplode_wait:
  assumes "waiting s"
    "\<not> (lastSinSign s > 0 \<and> sgn (sin ((pulseTime s + delta * 0.001) * 3)) \<le> 0)"
  shows "\<exists>s'. update time delta (s, g, am, b) = Inr (s', g, am, b) \<and> waiting s' \<and>
     phaseTimer s' = phaseTimer s + delta * 0.001 \<and>
     pulseTime s' = pulseTime s + delta * 0.001 \<and>
     lastSinSign s' = sgn (sin ((pulseTime s + delta * 0.001) * 3)) \<and>
     dotPulseCount s' = dotPulseCount s"
proof -
  let ?s3 = "s\<lparr>pulseTime := pulseTime s + delta * 0.001,
              phaseTimer := phaseTimer s + delta * 0.001,
              ringRotationZ := ringRotationZ s + delta * 0.0004\<rparr>"
  obtain A P where o: "orbitParticles delta ?s3 = ?s3\<lparr>particleAngles := A, positions := P\<rparr>"
    using orbitParticles_frame [of delta ?s3] by blast
  let ?s4 = "?s3\<lparr>particleAngles := A, positions := P\<rparr>"
  have pre: "\<not> explodeStarted ?s4" "\<not> (lastSinSign ?s4 > 0 \<and> sgn (sin (pulseTime ?s4 * 3)) \<le> 0)"
    using assms by (simp_all add: waiting_def)
  let ?s5 = "updateDotExplode (delta * 0.001) ?s4"
  have u: "?s5 = ?s4\<lparr>lastSinSign := sgn (sin (pulseTime ?s4 * 3)),
      dotScale := 1 + sin (pulseTime ?s4 * 3) * 0.3,
      lightIntensity := 1.5 + sin (pulseTime ?s4 * 3) * 0.8\<rparr>"
    by (rule updateDotExplode_wait [OF pre])
  have run: "update time delta (s, g, am, b) = Inr (?s5, g, am, b)"
    using assms(1) o by (simp add: update_def Let_def waiting_def)
  have "waiting ?s5 \<and> phaseTimer ?s5 = phaseTimer s + delta * 0.001 \<and>
     pulseTime ?s5 = pulseTime s + delta * 0.001 \<and>
     lastSinSign ?s5 = sgn (sin ((pulseTime s + delta * 0.001) * 3)) \<and>
     dotPulseCount ?s5 = dotPulseCount s"
    unfolding u using assms(1) by (simp add: waiting_def)
  then show ?thesis using run by blast
qed

lemma update_dotExplode_start:
  assumes "waiting s"
    "lastSinSign s > 0 \<and> sgn (sin ((pulseTime s + delta * 0.001) * 3)) \<le> 0"
  shows "\<exists>s'. update time delta (s, g, am, b) = Inr (s', g, am, b) \<and>
     explodeStarted s' \<and> phaseTimer s' = 0 \<and> phase s' = DotExplode \<and>
     dotPulseCount s' = dotPulseCount s + 1"
proof -
  let ?s3 = "s\<lparr>pulseTime := pulseTime s + delta * 0.001,
              phaseTimer := phaseTimer s + delta * 0.001,
              ringRotationZ := ringRotationZ s + delta * 0.0004\<rparr>"
  obtain A P where o: "orbitParticles delta ?s3 = ?s3\<lparr>particleAngles := A, positions := P\<rparr>"
    using orbitParticles_frame [of delta ?s3] by blast
  let ?s4 = "?s3\<lparr>particleAngles := A, positions := P\<rparr>"
  have pre: "\<not> explodeStarted ?s4" "lastSinSign ?s4 > 0" "sgn (sin (pulseTime ?s4 * 3)) \<le> 0"
    "0 \<le> dotPulseCount ?s4"
    using assms by (simp_all add: waiting_def)
  let ?s5 = "updateDotExplode (delta * 0.001) ?s4"
  have u: "?s5 = ?s4\<lparr>dotPulseCount := dotPulseCount ?s4 + 1, explodeStarted := True, phaseTimer := 0,
      lastSinSign := sgn (sin (pulseTime ?s4 * 3)),
      dotScale := 1, dotOpacity := 1, lightIntensity := 1.5\<rparr>"
    by (rule updateDotExplode_start [OF pre])
  have run: "update time delta (s, g, am, b) = Inr (?s5, g, am, b)"
    using assms(1) o by (simp add: update_def Let_def waiting_def)
  have "explodeStarted ?s5 \<and> phaseTimer ?s5 = 0 \<and> phase ?s5 = DotExplode \<and>
     dotPulseCount ?s5 = dotPulseCount s + 1"
    unfolding u using assms(1) by (simp add: waiting_def)
  then show ?thesis using run by blast
qed

lemma dotExplode_run:
  "waiting s \<Longrightarrow>
   (first_crossing (lastSinSign s) (pulse_signs (pulseTime s) ds) = None \<longrightarrow>
      (\<exists>s'. updates ds (s, g, am, b) = Inr (s', g, am, b) \<and> waiting s' \<and>
            phaseTimer s' = phaseTimer s + elapsed_seconds ds)) \<and>
   (\<forall>k. first_crossing (lastSinSign s) (pulse_signs (pulseTime s) ds) = Some k \<longrightarrow>
      k < length ds \<and>
      (\<exists>s'. updates (take k ds) (s, g, am, b) = Inr (s', g, am, b) \<and> waiting s' \<and>
            phaseTimer s' = phaseTimer s + elapsed_seconds (take k ds)) \<and>
      (\<exists>s'. updates (take (Suc k) ds) (s, g, am, b) = Inr (s', g, am, b) \<and>
            explodeStarted s' \<and> phaseTimer s' = 0 \<and> phase s' = DotExplode))"
proof (induction ds arbitrary: s)
  case Nil
  then show ?case by (simp add: elapsed_seconds_def)
next
  case (Cons delta ds)
  let ?c = "sgn (sin ((pulseTime s + delta * 0.001) * 3))"
  show ?case
  proof (cases "lastSinSign s > 0 \<and> ?c \<le> 0")
    case True
    obtain s' where "update 0 delta (s, g, am, b) = Inr (s', g, am, b)"
      "explodeStarted s'" "phaseTimer s' = 0" "phase s' = DotExplode"
      using update_dotExplode_start [OF Cons.prems True, of 0 g am b] by blast
    then show ?thesis
      using True Cons.prems by (auto simp add: elapsed_seconds_def)
  next
    case False
    obtain s1 where step: "update 0 delta (s, g, am, b) = Inr (s1, g, am, b)"
      and w1: "waiting s1"
      and t1: "phaseTimer s1 = phaseTimer s + delta * 0.001"
      and p1: "pulseTime s1 = pulseTime s + delta * 0.001"
      and l1: "lastSinSign s1 = ?c"
      using update_dotExplode_wait [OF Cons.prems False, of 0 g am b] by blast
    have fc: "first_crossing (lastSinSign s) (pulse_signs (pulseTime s) (delta # ds)) =
        map_option Suc (first_crossing (lastSinSign s1) (pulse_signs (pulseTime s1) ds))"
      using False by (auto simp add: l1 p1)
    have el: "elapsed_seconds (delta # xs) = delta * 0.001 + elapsed_seconds xs" for xs
      by (simp add: elapsed_seconds_def)
    note ih = Cons.IH [OF w1]
    show ?thesis
    proof (intro conjI impI allI)
      assume "first_crossing (lastSinSign s) (pulse_signs (pulseTime s) (delta # ds)) = None"
      then have "first_crossing (lastSinSign s1) (pulse_signs (pulseTime s1) ds) = None"
        unfolding fc by simp
      then obtain s' where "updates ds (s1, g, am, b) = Inr (s', g, am, b)" "waiting s'"
        "phaseTimer s' = phaseTimer s1 + elapsed_seconds ds"
        using ih by blast
      then show "\<exists>s'. updates (delta # ds) (s, g, am, b) = Inr (s', g, am, b) \<and> waiting s' \<and>
            phaseTimer s' = phaseTimer s + elapsed_seconds (delta # ds)"
        using step t1 by (auto simp add: el)
    next
      fix k
      assume "first_crossing (lastSinSign s) (pulse_signs (pulseTime s) (delta # ds)) = Some k"
      then obtain j where k: "k = Suc j"
        and j: "first_crossing (lastSinSign s1) (pulse_signs (pulseTime s1) ds) = Some j"
        unfolding fc by auto
      from ih j have jl: "j < length ds"
        and a: "\<exists>s'. updates (take j ds) (s1, g, am, b) = Inr (s', g, am, b) \<and> waiting s' \<and>
            phaseTimer s' = phaseTimer s1 + elapsed_seconds (take j ds)"
        and c: "\<exists>s'. updates (take (Suc j) ds) (s1, g, am, b) = Inr (s', g, am, b) \<and>
            explodeStarted s' \<and> phaseTimer s' = 0 \<and> phase s' = DotExplode"
        by blast+
      show "k < length (delta # ds)" using jl k by simp
      show "\<exists>s'. updates (take k (delta # ds)) (s, g, am, b) = Inr (s', g, am, b) \<and> waiting s' \<and>
            phaseTimer s' = phaseTimer s + elapsed_seconds (take k (delta # ds))"
        using a step t1 k by (auto simp add: el)
      show "\<exists>s'. updates (take (Suc k) (delta # ds)) (s, g, am, b) = Inr (s', g, am, b) \<and>
            explodeStarted s' \<and> phaseTimer s' = 0 \<and> phase s' = DotExplode"
        using c step k by auto
    qed
  qed
qed

lemma update_ringFade_complete:
  assumes "phase r = RingFade" "\<not> isComplete r" "\<not> explodeStarted r"
    "RING_FADE_DURATION \<le> phaseTimer r + delta * 0.001"
  shows "\<exists>s'. update time delta (r, g, am, b) = Inr (s', g, am, b) \<and> waiting s' \<and>
     dotPulseCount s' = 0 \<and> phaseTimer s' = 0 \<and>
     pulseTime s' = pulseTime r + delta * 0.001 \<and>
     lastSinSign s' = sgn (sin (pulseTime s' * 3))"
proof -
  let ?s3 = "r\<lparr>pulseTime := pulseTime r + delta * 0.001,
              phaseTimer := phaseTimer r + delta * 0.001,
              ringRotationZ := ringRotationZ r + delta * 0.0004\<rparr>"
  obtain A P where o: "orbitParticles delta ?s3 = ?s3\<lparr>particleAngles := A, positions := P\<rparr>"
    using orbitParticles_frame [of delta ?s3] by blast
  let ?s4 = "?s3\<lparr>particleAngles := A, positions := P\<rparr>"
  let ?s5 = "updateRingFade (delta * 0.001) ?s4"
  have t: "1 \<le> min (phaseTimer ?s4 / RING_FADE_DURATION) 1"
    using assms(4) by (simp add: RING_FADE_DURATION_def)
  have run: "update time delta (r, g, am, b) = Inr (?s5, g, am, b)"
    using assms(1,2) o by (simp add: update_def Let_def)
  have "waiting ?s5 \<and> dotPulseCount ?s5 = 0 \<and> phaseTimer ?s5 = 0 \<and>
     pulseTime ?s5 = pulseTime r + delta * 0.001 \<and>
     lastSinSign ?s5 = sgn (sin (pulseTime ?s5 * 3))"
    using t assms(2,3) by (simp add: updateRingFade_def Let_def waiting_def)
  then show ?thesis using run by blast
qed

text \<open>\<open>first_crossing\<close> is the least index with a positive sign before it and a
  non-positive sign at it.\<close>

lemma first_crossing_index:
  "first_crossing prev cs = Some k \<longleftrightarrow>
     k < length cs \<and> (prev # cs) ! k > 0 \<and> cs ! k \<le> 0 \<and>
     (\<forall>j<k. \<not> ((prev # cs) ! j > 0 \<and> cs ! j \<le> 0))"
proof (induction cs arbitrary: prev k)
  case Nil
  then show ?case by simp
next
  case (Cons c cs)
  show ?case
  proof (cases "prev > 0 \<and> c \<le> 0")
    case True
    then show ?thesis by (cases k) auto
  next
    case False
    show ?thesis
    proof (cases k)
      case 0
      then show ?thesis using False by auto
    next
      case (Suc m)
      have "(\<forall>j<Suc m. \<not> ((prev # c # cs) ! j > 0 \<and> (c # cs) ! j \<le> 0)) \<longleftrightarrow>
            (\<forall>j<m. \<not> ((c # cs) ! j > 0 \<and> cs ! j \<le> 0))"
        using False by (auto simp add: less_Suc_eq_0_disj)
      then show ?thesis
        using False Suc Cons.IH [of c m] by auto
    qed
  qed
qed

text \<open>
  Claim C7. With \<^verbatim>\<open>DOT_PULSES_BEFORE_EXPLODE = 1\<close>, run any frames on a scene waiting
  in \<^verbatim>\<open>dotExplode\<close>. If no frame is a crossing (previous sign positive, own sign not
  positive), the scene still waits after all of them and its phase timer was never
  reset. If frame \<open>k\<close> is the first crossing, the scene still waits after the \<open>k\<close>
  frames before it, and after frame \<open>k\<close> the explosion has started with the timer
  at 0. The frame that completes \<^verbatim>\<open>ringFade\<close> enters \<^verbatim>\<open>dotExplode\<close> with the count
  at 0 and the previous sign seeded from the sign of the pulse signal on that
  frame, so the first frame of the new phase is compared with the signal as it is.
\<close>

theorem dotExplode_starts_at_first_crossing:
  "(waiting s \<longrightarrow>
      (first_crossing (lastSinSign s) (pulse_signs (pulseTime s) ds) = None \<longrightarrow>
         (\<exists>s'. updates ds (s, g, am, b) = Inr (s', g, am, b) \<and> waiting s' \<and>
               phaseTimer s' = phaseTimer s + elapsed_seconds ds)) \<and>
      (\<forall>k. first_crossing (lastSinSign s) (pulse_signs (pulseTime s) ds) = Some k \<longrightarrow>
         k < length ds \<and>
         (\<exists>s'. updates (take k ds) (s, g, am, b) = Inr (s', g, am, b) \<and> waiting s' \<and>
               phaseTimer s' = phaseTimer s + elapsed_seconds (take k ds)) \<and>
         (\<exists>s'. updates (take (Suc k) ds) (s, g, am, b) = Inr (s', g, am, b) \<and>
               explodeStarted s' \<and> phaseTimer s' = 0 \<and> phase s' = DotExplode))) \<and>
   (phase r = RingFade \<and> \<not> isComplete r \<and> \<not> explodeStarted r \<and>
    RING_FADE_DURATION \<le> phaseTimer r + delta * 0.001 \<longrightarrow>
      (\<exists>s'. update time delta (r, g, am, b) = Inr (s', g, am, b) \<and> waiting s' \<and>
            dotPulseCount s' = 0 \<and> phaseTimer s' = 0 \<and>
            pulseTime s' = pulseTime r + delta * 0.001 \<and>
            lastSinSign s' = sgn (sin (pulseTime s' * 3))))"
proof (intro conjI impI)
  assume w: "waiting s"
  note run = dotExplode_run [OF w, of ds g am b]
  show "\<exists>s'. updates ds (s, g, am, b) = Inr (s', g, am, b) \<and> waiting s' \<and>
               phaseTimer s' = phaseTimer s + elapsed_seconds ds"
    if "first_crossing (lastSinSign s) (pulse_signs (pulseTime s) ds) = None"
    using run that by blast
  show "\<forall>k. first_crossing (lastSinSign s) (pulse_signs (pulseTime s) ds) = Some k \<longrightarrow>
         k < length ds \<and>
         (\<exists>s'. updates (take k ds) (s, g, am, b) = Inr (s', g, am, b) \<and> waiting s' \<and>
               phaseTimer s' = phaseTimer s + elapsed_seconds (take k ds)) \<and>
         (\<exists>s'. updates (take (Suc k) ds) (s, g, am, b) = Inr (s', g, am, b) \<and>
               explodeStarted s' \<and> phaseTimer s' = 0 \<and> phase s' = DotExplode)"
    using run by blast
next
  assume "phase r = RingFade \<and> \<not> isComplete r \<and> \<not> explodeStarted r \<and>
    RING_FADE_DURATION \<le> phaseTimer r + delta * 0.001"
  then show "\<exists>s'. update time delta (r, g, am, b) = Inr (s', g, am, b) \<and> waiting s' \<and>
            dotPulseCount s' = 0 \<and> phaseTimer s' = 0 \<and>
            pulseTime s' = pulseTime r + delta * 0.001 \<and>
            lastSinSign s' = sgn (sin (pulseTime s' * 3))"
    by (intro update_ringFade_complete) simp_all
qed

text \<open>
  Seeded at the top of a pulse, a frame of 0 ms samples the same positive value and
  the next frame samples \<open>sin \<pi> = 0\<close>: the explosion starts on the second frame.
\<close>

theorem dotExplode_starts_at_first_crossing_witness:
  "pulse_signs (pi / 6) [0, 1000 * pi / 6] = [1, 0] \<and>
   first_crossing 1 [1, 0] = Some 1 \<and>
   (\<exists>s'. updates [0] (scene_waiting, GlobalState_new, AudioManager_new, Browser_fresh) =
           Inr (s', GlobalState_new, AudioManager_new, Browser_fresh) \<and>
         explodeStarted s' = False \<and> phaseTimer s' = 0) \<and>
   (\<exists>s'. updates [0, 1000 * pi / 6] (scene_waiting, GlobalState_new, AudioManager_new, Browser_fresh) =
           Inr (s', GlobalState_new, AudioManager_new, Browser_fresh) \<and>
         explodeStarted s' \<and> phaseTimer s' = 0)"
proof -
  let ?ds = "[0, 1000 * pi / 6] :: real list"
  have w: "waiting scene_waiting"
    and l: "lastSinSign scene_waiting = 1" and p: "pulseTime scene_waiting = pi / 6"
    and t: "phaseTimer scene_waiting = 0"
    by (simp_all add: waiting_def scene_waiting_def LoadingScene_new_def Let_def)
  have h: "(pi / 6 + 1000 * pi / 6 * 0.001) * 3 = pi" by simp
  have signs: "pulse_signs (pi / 6) ?ds = [1, 0]"
    by (simp add: h)
  have fc: "first_crossing 1 [1, 0 :: real] = Some 1" by simp
  note inst = dotExplode_starts_at_first_crossing
    [of scene_waiting ?ds GlobalState_new AudioManager_new Browser_fresh, THEN conjunct1, THEN mp, OF w]
  from inst have k: "\<forall>k. first_crossing (lastSinSign scene_waiting) (pulse_signs (pulseTime scene_waiting) ?ds) = Some k \<longrightarrow>
      (\<exists>s'. updates (take k ?ds) (scene_waiting, GlobalState_new, AudioManager_new, Browser_fresh) =
              Inr (s', GlobalState_new, AudioManager_new, Browser_fresh) \<and> waiting s' \<and>
            phaseTimer s' = phaseTimer scene_waiting + elapsed_seconds (take k ?ds)) \<and>
      (\<exists>s'. updates (take (Suc k) ?ds) (scene_waiting, GlobalState_new, AudioManager_new, Browser_fresh) =
              Inr (s', GlobalState_new, AudioManager_new, Browser_fresh) \<and>
            explodeStarted s' \<and> phaseTimer s' = 0 \<and> phase s' = DotExplode)"
    by blast
  have at1: "first_crossing (lastSinSign scene_waiting) (pulse_signs (pulseTime scene_waiting) ?ds) = Some 1"
    unfolding l p signs fc ..
  from k at1 have
    a: "\<exists>s'. updates (take 1 ?ds) (scene_waiting, GlobalState_new, AudioManager_new, Browser_fresh) =
              Inr (s', GlobalState_new, AudioManager_new, Browser_fresh) \<and> waiting s' \<and>
            phaseTimer s' = phaseTimer scene_waiting + elapsed_seconds (take 1 ?ds)"
    and c: "\<exists>s'. updates (take (Suc 1) ?ds) (scene_waiting, GlobalState_new, AudioManager_new, Browser_fresh) =
              Inr (s', GlobalState_new, AudioManager_new, Browser_fresh) \<and>
            explodeStarted s' \<and> phaseTimer s' = 0 \<and> phase s' = DotExplode"
    by blast+
  have a': "\<exists>s'. updates [0] (scene_waiting, GlobalState_new, AudioManager_new, Browser_fresh) =
           Inr (s', GlobalState_new, AudioManager_new, Browser_fresh) \<and>
         explodeStarted s' = False \<and> phaseTimer s' = 0"
    using a by (auto simp add: waiting_def t elapsed_seconds_def)
  have c': "\<exists>s'. updates ?ds (scene_waiting, GlobalState_new, AudioManager_new, Browser_fresh) =
           Inr (s', GlobalState_new, AudioManager_new, Browser_fresh) \<and>
         explodeStarted s' \<and> phaseTimer s' = 0"
    using c by auto
  show ?thesis using signs fc a' c' by blast
qed

lemma controls_restored:
  "\<forall>ident \<in> set arrow_ids_disable.
     elementDisplay (snd (enableControls (disableControls (s, b)))) ident =
       map_option (\<lambda>old. []) (elementDisplay b ident)"
proof -
  obtain E1 where f1: "fold (set_display ''none'') arrow_ids_disable b = b\<lparr>elementDisplay := E1\<rparr>"
    and e1: "\<And>ident. E1 ident =
          (if ident \<in> set arrow_ids_disable then map_option (\<lambda>old. ''none'') (elementDisplay b ident)
           else elementDisplay b ident)"
    using set_display_fold [of "''none''" arrow_ids_disable b] by blast
  let ?b1 = "b\<lparr>elementDisplay := E1\<rparr>"
  obtain E2 where f2: "fold (set_display []) arrow_ids_enable ?b1 = ?b1\<lparr>elementDisplay := E2\<rparr>"
    and e2: "\<And>ident. E2 ident =
          (if ident \<in> set arrow_ids_enable then map_option (\<lambda>old. []) (elementDisplay ?b1 ident)
           else elementDisplay ?b1 ident)"
    using set_display_fold [of "[]" arrow_ids_enable ?b1] by blast
  have same: "set arrow_ids_enable = set arrow_ids_disable"
    by (auto simp add: arrow_ids_enable_def arrow_ids_disable_def)
  have "E2 ident = map_option (\<lambda>old. []) (elementDisplay b ident)"
    if "ident \<in> set arrow_ids_disable" for ident
    using that by (simp add: e2 e1 same option.map_comp comp_def)
  then show ?thesis
    by (simp add: enableControls_def disableControls_def f1 f2)
qed

text \<open>
  Claim C6. In \<^verbatim>\<open>exitBurst\<close> (with the start radii captured, as the transition into
  the phase does), the frame on which the phase timer reaches \<^verbatim>\<open>EXIT_DURATION\<close> sets
  \<^verbatim>\<open>isComplete\<close>, unblocks the look controls, shows every arrow the page has, and
  sets \<^verbatim>\<open>canProgress\<close> on the global state; every later \<^verbatim>\<open>update\<close> returns the scene,
  the global state, the audio manager and the page exactly as they are. Showing the
  arrows undoes what \<^verbatim>\<open>disableControls\<close> did. In general \<^verbatim>\<open>update\<close> on a completed
  scene changes nothing.
\<close>

theorem exitBurst_completion:
  "(phase s = ExitBurst \<and> \<not> isComplete s \<and> EXIT_DURATION \<le> phaseTimer s + delta * 0.001 \<and>
    (exitStartRadii s \<noteq> None \<or> particleAngles s = []) \<longrightarrow>
      (\<exists>s'. update time delta (s, g, am, b) =
               Inr (s', setCanProgress True g, am, snd (enableControls (s, b))) \<and>
            isComplete s' \<and> \<not> blockLook s' \<and> canProgress (setCanProgress True g) \<and>
            (\<forall>time' delta'.
               update time' delta' (s', setCanProgress True g, am, snd (enableControls (s, b))) =
                 Inr (s', setCanProgress True g, am, snd (enableControls (s, b)))))) \<and>
   (\<forall>ident \<in> set arrow_ids_enable.
      elementDisplay (snd (enableControls (s, b))) ident =
        map_option (\<lambda>old. []) (elementDisplay b ident)) \<and>
   (\<forall>ident \<in> set arrow_ids_disable.
      elementDisplay (snd (enableControls (disableControls (s, b)))) ident =
        map_option (\<lambda>old. []) (elementDisplay b ident)) \<and>
   (isComplete s \<longrightarrow> update time delta (s, g, am, b) = Inr (s, g, am, b))"
proof (intro conjI impI)
  assume "phase s = ExitBurst \<and> \<not> isComplete s \<and> EXIT_DURATION \<le> phaseTimer s + delta * 0.001 \<and>
    (exitStartRadii s \<noteq> None \<or> particleAngles s = [])"
  then obtain s' where u: "update time delta (s, g, am, b) =
           Inr (s', setCanProgress True g, am, snd (enableControls (s, b)))"
    and c: "isComplete s'" "\<not> blockLook s'"
    using update_exitBurst_complete [of s delta time g am b] by blast
  have idle: "update time' delta' (s', setCanProgress True g, am, snd (enableControls (s, b))) =
      Inr (s', setCanProgress True g, am, snd (enableControls (s, b)))" for time' delta'
    using c(1) by (rule update_complete_noop)
  have "canProgress (setCanProgress True g)" by (simp add: setCanProgress_def)
  then show "\<exists>s'. update time delta (s, g, am, b) =
               Inr (s', setCanProgress True g, am, snd (enableControls (s, b))) \<and>
            isComplete s' \<and> \<not> blockLook s' \<and> canProgress (setCanProgress True g) \<and>
            (\<forall>time' delta'.
               update time' delta' (s', setCanProgress True g, am, snd (enableControls (s, b))) =
                 Inr (s', setCanProgress True g, am, snd (enableControls (s, b))))"
    using u c idle by blast
next
  show "\<forall>ident \<in> set arrow_ids_enable.
      elementDisplay (snd (enableControls (s, b))) ident =
        map_option (\<lambda>old. []) (elementDisplay b ident)"
    using enableControls_shows_arrows [of s b] by blast
  show "\<forall>ident \<in> set arrow_ids_disable.
      elementDisplay (snd (enableControls (disableControls (s, b)))) ident =
        map_option (\<lambda>old. []) (elementDisplay b ident)"
    by (rule controls_restored)
  show "update time delta (s, g, am, b) = Inr (s, g, am, b)" if "isComplete s"
    using that by (rule update_complete_noop)
qed

text \<open>A 16 ms frame that takes the burst from 0.69 s past its 0.7 s.\<close>

theorem exitBurst_completion_witness:
  "\<exists>s'. update 0 16 (scene_bursting, GlobalState_new, AudioManager_new, Browser_fresh) =
           Inr (s', setCanProgress True GlobalState_new, AudioManager_new,
                snd (enableControls (scene_bursting, Browser_fresh))) \<and>
         isComplete s' \<and> \<not> blockLook s' \<and>
         update 16 16 (s', setCanProgress True GlobalState_new, AudioManager_new,
                snd (enableControls (scene_bursting, Browser_fresh))) =
           Inr (s', setCanProgress True GlobalState_new, AudioManager_new,
                snd (enableControls (scene_bursting, Browser_fresh)))"
proof -
  have pre: "phase scene_bursting = ExitBurst \<and> \<not> isComplete scene_bursting \<and>
      EXIT_DURATION \<le> phaseTimer scene_bursting + 16 * 0.001 \<and>
      (exitStartRadii scene_bursting \<noteq> None \<or> particleAngles scene_bursting = [])"
    by (simp add: scene_bursting_def LoadingScene_new_def Let_def EXIT_DURATION_def)
  show ?thesis
    using exitBurst_completion
      [of scene_bursting 16 0 GlobalState_new AudioManager_new Browser_fresh] pre
    by blast
qed

section \<open>Properties of double arithmetic\<close>

text \<open>Powers of 2, and the bounds that define the exponent.\<close>

lemma pow2_pos: "0 < pow2 k"
  by (simp add: pow2_def)

lemma pow2_Suc: "pow2 (k + 1) = 2 * pow2 k"
proof -
  consider "0 \<le> k" | "k = - 1" | "k < - 1" by linarith
  then show ?thesis
  proof cases
    case 1
    then have "nat (k + 1) = Suc (nat k)" by simp
    then show ?thesis using 1 by (simp add: pow2_def)
  next
    case 2
    then show ?thesis by (simp add: pow2_def)
  next
    case 3
    then have "nat (- k) = Suc (nat (- (k + 1)))" by simp
    then show ?thesis using 3 by (simp add: pow2_def)
  qed
qed

lemma pow2_add_nat: "pow2 (k + int n) = pow2 k * 2 ^ n"
proof (induction n)
  case 0
  then show ?case by simp
next
  case (Suc n)
  have "k + int (Suc n) = (k + int n) + 1" by simp
  then have "pow2 (k + int (Suc n)) = pow2 ((k + int n) + 1)" by (rule arg_cong)
  also have "\<dots> = 2 * pow2 (k + int n)" by (rule pow2_Suc)
  finally show ?case using Suc by simp
qed

lemma pow2_mono: "a \<le> b \<Longrightarrow> pow2 a \<le> pow2 b"
proof -
  assume "a \<le> b"
  then have "b = a + int (nat (b - a))" by simp
  then have "pow2 b = pow2 a * 2 ^ nat (b - a)" by (metis pow2_add_nat)
  moreover have "(1::real) \<le> 2 ^ nat (b - a)" by simp
  ultimately show ?thesis using pow2_pos [of a] by (simp add: mult_le_cancel_left1)
qed

lemma exponent_up_bounds:
  "1 \<le> x \<Longrightarrow> 0 \<le> exponent_up x \<and> pow2 (exponent_up x) \<le> x \<and> x < pow2 (exponent_up x + 1)"
proof (induction x rule: exponent_up.induct)
  case (1 x)
  show ?case
  proof (cases "x < 2")
    case True
    then have "exponent_up x = 0" by (simp add: exponent_up.simps)
    then show ?thesis using True 1(2) by (simp add: pow2_def)
  next
    case False
    then have e: "exponent_up x = exponent_up (x / 2) + 1" by (simp add: exponent_up.simps)
    have "1 \<le> x / 2" using False by simp
    from 1(1) [OF False this]
    have ih: "0 \<le> exponent_up (x / 2)" "pow2 (exponent_up (x / 2)) \<le> x / 2"
      "x / 2 < pow2 (exponent_up (x / 2) + 1)" by simp_all
    have "pow2 (exponent_up (x / 2) + 1) \<le> x"
      using ih(2) by (simp add: pow2_Suc)
    moreover have "x < pow2 (exponent_up (x / 2) + 1 + 1)"
      unfolding pow2_Suc [of "exponent_up (x / 2) + 1"] using ih(3) by simp
    ultimately show ?thesis
      unfolding e using ih(1) by simp
  qed
qed

lemma exponent_down_bounds:
  "0 < x \<Longrightarrow> x < 1 \<Longrightarrow>
   exponent_down x < 0 \<and> pow2 (exponent_down x) \<le> x \<and> x < pow2 (exponent_down x + 1)"
proof (induction x rule: exponent_down.induct)
  case (1 x)
  have e: "exponent_down x = exponent_down (2 * x) - 1"
    using 1(2,3) by (simp add: exponent_down.simps)
  show ?case
  proof (cases "1 \<le> 2 * x")
    case True
    then have "exponent_down (2 * x) = 0" by (simp add: exponent_down.simps)
    then show ?thesis unfolding e using True 1(3) by (simp add: pow2_def)
  next
    case False
    have n: "\<not> (x \<le> 0 \<or> 1 \<le> x)" using 1(2,3) by simp
    have "0 < 2 * x" "2 * x < 1" using 1(2) False by simp_all
    from 1(1) [OF n this]
    have ih: "exponent_down (2 * x) < 0" "pow2 (exponent_down (2 * x)) \<le> 2 * x"
      "2 * x < pow2 (exponent_down (2 * x) + 1)" by simp_all
    have s: "pow2 (exponent_down (2 * x)) = 2 * pow2 (exponent_down (2 * x) - 1)"
      using pow2_Suc [of "exponent_down (2 * x) - 1"] by simp
    have "pow2 (exponent_down (2 * x) - 1) \<le> x"
      using ih(2) s by simp
    moreover have "x < pow2 (exponent_down (2 * x) - 1 + 1)"
      using ih(3) by (simp add: pow2_Suc)
    ultimately show ?thesis
      unfolding e using ih(1) by simp
  qed
qed

lemma exponent_bounds:
  "0 < x \<Longrightarrow> pow2 (exponent x) \<le> x \<and> x < pow2 (exponent x + 1)"
  using exponent_up_bounds [of x] exponent_down_bounds [of x]
  by (cases "1 \<le> x") (simp_all add: exponent_def)

lemma round_half_even_near: "\<bar>of_int (round_half_even y) - y\<bar> \<le> 1 / 2"
proof -
  have "of_int \<lfloor>y\<rfloor> \<le> y" "y < of_int \<lfloor>y\<rfloor> + 1" by linarith+
  then show ?thesis
    by (auto simp add: round_half_even_def Let_def)
qed

lemma round_half_even_nonneg: "0 \<le> y \<Longrightarrow> 0 \<le> round_half_even y"
  by (auto simp add: round_half_even_def Let_def)

lemma round_half_even_nonpos: "y \<le> 0 \<Longrightarrow> round_half_even y \<le> 0"
proof -
  assume y: "y \<le> 0"
  show ?thesis
  proof (cases "y = of_int \<lfloor>y\<rfloor>")
    case True
    then have "y - of_int \<lfloor>y\<rfloor> = 0" by simp
    then have "round_half_even y = \<lfloor>y\<rfloor>" by (simp add: round_half_even_def Let_def)
    then show ?thesis using y by (simp add: floor_le_iff)
  next
    case False
    have "of_int \<lfloor>y\<rfloor> < y"
      by (metis False of_int_floor_le less_le)
    with y have "of_int \<lfloor>y\<rfloor> < (0::real)" by linarith
    then have "\<lfloor>y\<rfloor> < 0" by (simp only: of_int_less_0_iff)
    then have "\<lfloor>y\<rfloor> + 1 \<le> 0" by linarith
    then show ?thesis by (auto simp add: round_half_even_def Let_def)
  qed
qed

lemma ulp_pos: "0 < ulp x"
  by (simp add: ulp_def pow2_pos)

lemma double_near: "\<bar>double x - x\<bar> \<le> ulp x / 2"
proof -
  let ?q = "ulp x"
  have q: "0 < ?q" by (rule ulp_pos)
  have "double x - x = (of_int (round_half_even (x / ?q)) - x / ?q) * ?q"
    using q by (simp add: double_def algebra_simps)
  then have "\<bar>double x - x\<bar> = \<bar>of_int (round_half_even (x / ?q)) - x / ?q\<bar> * ?q"
    using q by (simp add: abs_mult)
  also have "\<dots> \<le> 1 / 2 * ?q"
    using round_half_even_near [of "x / ?q"] q by (simp add: mult_right_mono)
  finally show ?thesis by simp
qed

lemma double_nonneg: "0 \<le> x \<Longrightarrow> 0 \<le> double x"
  using ulp_pos [of x] by (simp add: double_def round_half_even_nonneg)

lemma double_nonpos: "x \<le> 0 \<Longrightarrow> double x \<le> 0"
proof -
  assume "x \<le> 0"
  then have "x / ulp x \<le> 0" using ulp_pos [of x] by (simp add: divide_nonpos_pos)
  then have "real_of_int (round_half_even (x / ulp x)) \<le> 0"
    using round_half_even_nonpos by simp
  then show ?thesis
    using ulp_pos [of x] by (simp add: double_def mult_nonpos_nonneg)
qed

lemma ulp_normal:
  assumes "1 / 2 ^ 20 \<le> x"
  shows "ulp x \<le> x / 2 ^ 52"
proof -
  have x: "0 < x" using assms by (rule less_le_trans [rotated]) simp
  note b = exponent_bounds [OF x]
  have "- 21 < exponent x"
  proof (rule ccontr)
    assume "\<not> - 21 < exponent x"
    then have "exponent x + 1 \<le> - 20" by simp
    then have "pow2 (exponent x + 1) \<le> pow2 (- 20)" by (rule pow2_mono)
    then have "x < 1 / 2 ^ 20" using b by (simp add: pow2_def)
    with assms show False by simp
  qed
  then have m: "max (exponent \<bar>x\<bar>) (- 1022) = exponent x" using x by simp
  have "pow2 (exponent x) = pow2 ((exponent x - 52) + int 52)" by simp
  also have "\<dots> = pow2 (exponent x - 52) * 2 ^ 52" by (rule pow2_add_nat)
  finally have "ulp x = pow2 (exponent x) / 2 ^ 52" by (simp add: ulp_def m)
  then show ?thesis using b by (simp add: divide_right_mono)
qed

lemma double_relative:
  assumes "1 / 2 ^ 20 \<le> x"
  shows "x * (1 - 1 / 2 ^ 53) \<le> double x" "double x \<le> x * (1 + 1 / 2 ^ 53)"
proof -
  have "\<bar>double x - x\<bar> \<le> x / 2 ^ 53"
    using double_near [of x] ulp_normal [OF assms] by simp
  then have "double x - x \<le> x / 2 ^ 53" "x - double x \<le> x / 2 ^ 53"
    by (simp_all only: abs_le_iff minus_diff_eq)
  then show "x * (1 - 1 / 2 ^ 53) \<le> double x" "double x \<le> x * (1 + 1 / 2 ^ 53)"
    by (simp_all add: algebra_simps)
qed

text \<open>A coarser bound, easier to compute with.\<close>

lemma double_coarse:
  assumes "1 / 2 ^ 20 \<le> x"
  shows "x * (999999 / 1000000) \<le> double x" "double x \<le> x * (1000001 / 1000000)"
proof -
  have x: "0 \<le> x" using assms by (rule order_trans [rotated]) simp
  have "x * (999999 / 1000000) \<le> x * (1 - 1 / 2 ^ 53)"
    using x by (intro mult_left_mono) simp_all
  then show "x * (999999 / 1000000) \<le> double x"
    using double_relative(1) [OF assms] by (rule order_trans)
  have "x * (1 + 1 / 2 ^ 53) \<le> x * (1000001 / 1000000)"
    using x by (intro mult_left_mono) simp_all
  with double_relative(2) [OF assms] show "double x \<le> x * (1000001 / 1000000)"
    by (rule order_trans)
qed

text \<open>
  Evaluating the rounding on a literal: the exponent searches are unfolded as far as
  their tests decide.
\<close>

lemmas double_eval =
  double_def ulp_def exponent_def exponent_down.simps exponent_up.simps pow2_def
  round_half_even_def Let_def

lemma double_literal: "double 0.05 = 7205759403792794 / 2 ^ 57"
  by (simp add: double_eval)


section \<open>Properties of the entry gate\<close>

text \<open>
  The progress of a frame at a whole number of milliseconds, from the error bound
  of each of the three roundings: short of the start test up to 499 ms, inside the
  window from 501 to 599 ms, past it from 601 ms, and at 1 from 2501 ms. At 500, 600
  and 2500 ms the bound does not decide and the computation is carried out.
\<close>

lemma seconds_bounds:
  assumes "1 \<le> f"
  shows "of_int f / 1000 * (999999 / 1000000) \<le> double (of_int f / 1000)"
    "double (of_int f / 1000) \<le> of_int f / 1000 * (1000001 / 1000000)"
proof -
  have "(1::real) \<le> of_int f" using assms by simp
  then have "1 / 2 ^ 20 \<le> (of_int f :: real) / 1000" by simp
  then show "of_int f / 1000 * (999999 / 1000000) \<le> double (of_int f / 1000)"
    "double (of_int f / 1000) \<le> of_int f / 1000 * (1000001 / 1000000)"
    by (rule double_coarse)+
qed

lemma progress_lower:
  assumes "5009 / 10000 \<le> lo" "lo \<le> E"
  shows "(lo - 1 / 2) * (999998 / 2000000) \<le> double (double (E - 1 / 2) / 2)"
proof -
  have y: "1 / 2 ^ 20 \<le> E - 1 / 2" using assms by simp
  note a = double_coarse(1) [OF y]
  have A: "(lo - 1 / 2) * (999999 / 1000000) \<le> double (E - 1 / 2)"
    using a assms by simp
  have z: "1 / 2 ^ 20 \<le> double (E - 1 / 2) / 2" using A assms(1) by simp
  note c = double_coarse(1) [OF z]
  have "(lo - 1 / 2) * (999998 / 2000000) \<le> (lo - 1 / 2) * (999999 / 1000000) / 2 * (999999 / 1000000)"
    using assms(1) by simp
  also have "\<dots> \<le> double (E - 1 / 2) / 2 * (999999 / 1000000)"
    using A by simp
  also note c
  finally show ?thesis .
qed

lemma progress_upper:
  assumes "5009 / 10000 \<le> E" "E \<le> hi"
  shows "double (double (E - 1 / 2) / 2) \<le> (hi - 1 / 2) * (1000003 / 2000000)"
proof -
  have y: "1 / 2 ^ 20 \<le> E - 1 / 2" using assms by simp
  note a = double_coarse [OF y]
  have A: "double (E - 1 / 2) \<le> (hi - 1 / 2) * (1000001 / 1000000)"
    using a(2) assms by simp
  have z: "1 / 2 ^ 20 \<le> double (E - 1 / 2) / 2" using a(1) assms(1) by simp
  note c = double_coarse(2) [OF z]
  note c
  also have "double (E - 1 / 2) / 2 * (1000001 / 1000000) \<le>
      (hi - 1 / 2) * (1000001 / 1000000) / 2 * (1000001 / 1000000)"
    using A by simp
  also have "\<dots> \<le> (hi - 1 / 2) * (1000003 / 2000000)"
    using assms by simp
  finally show ?thesis .
qed

lemma door_before_start:
  assumes "f \<le> 499"
  shows "\<not> door_started f"
proof (cases "1 \<le> f")
  case True
  have "(of_int f :: real) \<le> 499" using assms by simp
  then have "of_int f / 1000 * (1000001 / 1000000) < (1 / 2 :: real)" by simp
  with seconds_bounds(2) [OF True] have "double (of_int f / 1000) < 1 / 2" by (rule le_less_trans)
  then show ?thesis by (simp add: door_started_def DOOR_ANIMATION_START_def)
next
  case False
  then have "(of_int f :: real) / 1000 \<le> 0" by simp
  then have "double (of_int f / 1000) \<le> 0" by (rule double_nonpos)
  then have "double (of_int f / 1000) < 1 / 2" by simp
  then show ?thesis by (simp add: door_started_def DOOR_ANIMATION_START_def)
qed

lemma door_after_start:
  assumes "501 \<le> f"
  shows "5009 / 10000 \<le> double (of_int f / 1000)" "door_started f"
proof -
  have f: "(501 :: real) \<le> of_int f" using assms by simp
  then have "(5009 / 10000 :: real) \<le> of_int f / 1000 * (999999 / 1000000)" by simp
  also note seconds_bounds(1)
  finally show "5009 / 10000 \<le> double (of_int f / 1000)" using assms by simp
  then show "door_started f" by (simp add: door_started_def DOOR_ANIMATION_START_def)
qed

lemma door_t_at_500: "door_started 500" "door_t 500 = 0"
  by (simp_all add: door_started_def door_t_def DOOR_ANIMATION_START_def
      DOOR_ANIMATION_DURATION_def double_eval)

lemma door_t_at_600: "door_started 600" "door_t 600 = 900719925474099 / 2 ^ 54"
  by (simp_all add: door_started_def door_t_def DOOR_ANIMATION_START_def
      DOOR_ANIMATION_DURATION_def double_eval)

lemma door_t_at_2500: "door_started 2500" "door_t 2500 = 1"
  by (simp_all add: door_started_def door_t_def DOOR_ANIMATION_START_def
      DOOR_ANIMATION_DURATION_def double_eval)

lemma door_t_early:
  assumes "501 \<le> f" "f \<le> 599"
  shows "0 < door_t f" "door_t f < double 0.05"
proof -
  let ?E = "double (of_int f / 1000)"
  let ?P = "double (double (?E - 1 / 2) / 2)"
  note lo = door_after_start(1) [OF assms(1)]
  have "(of_int f :: real) \<le> 599" using assms(2) by simp
  then have "of_int f / 1000 * (1000001 / 1000000) \<le> (5991 / 10000 :: real)" by simp
  with seconds_bounds(2) [of f] assms(1) have hi: "?E \<le> 5991 / 10000" by simp
  have "0 < (5009 / 10000 - 1 / 2) * (999998 / 2000000 :: real)" by simp
  also note progress_lower [OF order_refl lo]
  finally have p: "0 < ?P" .
  have "?P \<le> (5991 / 10000 - 1 / 2) * (1000003 / 2000000)"
    using lo hi by (rule progress_upper)
  also have "\<dots> < 7205759403792794 / 2 ^ 57" by simp
  finally have q: "?P < double 0.05" unfolding double_literal .
  have "double 0.05 < 1" unfolding double_literal by simp
  with q have "?P < 1" by (rule less_trans)
  then have t: "door_t f = ?P"
    by (simp add: door_t_def DOOR_ANIMATION_START_def DOOR_ANIMATION_DURATION_def)
  show "0 < door_t f" "door_t f < double 0.05"
    unfolding t using p q by simp_all
qed

lemma door_t_middle:
  assumes "601 \<le> f" "f \<le> 2499"
  shows "double 0.05 \<le> door_t f" "door_t f < 1"
proof -
  let ?E = "double (of_int f / 1000)"
  let ?P = "double (double (?E - 1 / 2) / 2)"
  have f: "(601 :: real) \<le> of_int f" "(of_int f :: real) \<le> 2499" using assms by simp_all
  have "(6009 / 10000 :: real) \<le> of_int f / 1000 * (999999 / 1000000)" using f(1) by simp
  also have "\<dots> \<le> ?E" using seconds_bounds(1) [of f] assms(1) by simp
  finally have lo: "6009 / 10000 \<le> ?E" .
  have "of_int f / 1000 * (1000001 / 1000000) \<le> (24991 / 10000 :: real)" using f(2) by simp
  with seconds_bounds(2) [of f] assms(1) have hi: "?E \<le> 24991 / 10000" by simp
  have "7205759403792794 / 2 ^ 57 \<le> (6009 / 10000 - 1 / 2) * (999998 / 2000000 :: real)"
    by simp
  also have "\<dots> \<le> ?P" by (rule progress_lower [OF _ lo]) simp
  finally have p: "double 0.05 \<le> ?P" unfolding double_literal .
  have "5009 / 10000 \<le> ?E" using lo by simp
  then have "?P \<le> (24991 / 10000 - 1 / 2) * (1000003 / 2000000)"
    using hi by (rule progress_upper)
  also have "\<dots> < 1" by simp
  finally have q: "?P < 1" .
  then have t: "door_t f = ?P"
    by (simp add: door_t_def DOOR_ANIMATION_START_def DOOR_ANIMATION_DURATION_def)
  show "double 0.05 \<le> door_t f" "door_t f < 1"
    unfolding t using p q by simp_all
qed

lemma door_t_late:
  assumes "2501 \<le> f"
  shows "door_t f = 1"
proof -
  let ?E = "double (of_int f / 1000)"
  let ?P = "double (double (?E - 1 / 2) / 2)"
  have f: "(2501 :: real) \<le> of_int f" using assms by simp
  have "(25009 / 10000 :: real) \<le> of_int f / 1000 * (999999 / 1000000)" using f by simp
  also have "\<dots> \<le> ?E" using seconds_bounds(1) [of f] assms by simp
  finally have lo: "25009 / 10000 \<le> ?E" .
  have "1 \<le> (25009 / 10000 - 1 / 2) * (999998 / 2000000 :: real)" by simp
  also have "\<dots> \<le> ?P" by (rule progress_lower [OF _ lo]) simp
  finally have "1 \<le> ?P" .
  then show ?thesis
    by (simp add: door_t_def DOOR_ANIMATION_START_def DOOR_ANIMATION_DURATION_def)
qed

lemma cue_window_ms: "cue_window f \<longleftrightarrow> 500 < f \<and> f \<le> 600"
proof -
  consider "f \<le> 499" | "f = 500" | "501 \<le> f" "f \<le> 599" | "f = 600"
    | "601 \<le> f" "f \<le> 2499" | "f = 2500" | "2501 \<le> f"
    by linarith
  then show ?thesis
  proof cases
    case 1
    then show ?thesis using door_before_start [of f] by (simp add: cue_window_def)
  next
    case 2
    then show ?thesis by (simp add: cue_window_def door_t_at_500)
  next
    case 3
    then show ?thesis
      using door_after_start(2) [of f] door_t_early [of f] by (simp add: cue_window_def)
  next
    case 4
    have "(900719925474099 / 2 ^ 54 :: real) < double 0.05" unfolding double_literal by simp
    then show ?thesis using 4 by (simp add: cue_window_def door_t_at_600)
  next
    case 5
    then show ?thesis
      using door_t_middle(1) [of f] by (simp add: cue_window_def)
  next
    case 6
    have "\<not> (1 :: real) < double 0.05" unfolding double_literal by simp
    then show ?thesis using 6 by (simp add: cue_window_def door_t_at_2500)
  next
    case 7
    have "\<not> (1 :: real) < double 0.05" unfolding double_literal by simp
    then show ?thesis using 7 door_t_late [of f] by (simp add: cue_window_def)
  qed
qed

lemma doors_done_ms: "doors_done f \<longleftrightarrow> 2500 \<le> f"
proof -
  consider "f \<le> 499" | "f = 500" | "501 \<le> f" "f \<le> 599" | "f = 600"
    | "601 \<le> f" "f \<le> 2499" | "f = 2500" | "2501 \<le> f"
    by linarith
  then show ?thesis
  proof cases
    case 1
    then show ?thesis using door_before_start [of f] by (simp add: doors_done_def)
  next
    case 2
    then show ?thesis by (simp add: doors_done_def door_t_at_500)
  next
    case 3
    have "double 0.05 < 1" unfolding double_literal by simp
    with door_t_early(2) [of f] 3 have "door_t f < 1" by simp
    then show ?thesis using 3 by (simp add: doors_done_def)
  next
    case 4
    then show ?thesis by (simp add: doors_done_def door_t_at_600)
  next
    case 5
    then show ?thesis
      using door_t_middle(2) [of f] by (simp add: doors_done_def)
  next
    case 6
    then show ?thesis by (simp add: doors_done_def door_t_at_2500)
  next
    case 7
    then show ?thesis
      using door_t_late [of f] door_after_start(2) [of f] by (simp add: doors_done_def)
  qed
qed

text \<open>
  One frame in closed form. A frame in the window, on a gate whose doors have not
  been found open and whose cue flag is unset, reaches the call of
  \<^verbatim>\<open>playGateOpening\<close>; every other frame returns normally.
\<close>

lemma cue_not_done:
  assumes "cue_window f"
  shows "\<not> doors_done f"
proof -
  have "door_t f < double 0.05" using assms by (simp add: cue_window_def)
  also have "double 0.05 < 1" unfolding double_literal by simp
  finally show ?thesis by (simp add: doors_done_def)
qed

lemma door_frame_unfold:
  "door_frame f (e, am, b) =
    (let e1 = e\<lparr>elapsedTime := double (of_int f / 1000)\<rparr>
     in if doorsOpened e \<or> \<not> door_started f then (None, e1, am, b)
        else if 0 < door_t f \<and> door_t f < double 0.05 \<and> \<not> gateOpeningSoundPlayed e then
          (Some TypeError, e1, am, b)
        else if 1 \<le> door_t f then
          (None, e1\<lparr>doorsOpened := True\<rparr>, am, console_log ''Doors fully opened'' b)
        else (None, e1, am, b))"
  by (simp add: door_frame_def updateDoorAnimation_def call_playGateOpening_def
      door_started_def door_t_def Let_def)

lemma door_frame_result:
  "door_frame f (e, am, b) =
    (if cue_window f \<and> \<not> doorsOpened e \<and> \<not> gateOpeningSoundPlayed e then
       (Some TypeError, e\<lparr>elapsedTime := double (of_int f / 1000)\<rparr>, am, b)
     else if doors_done f \<and> \<not> doorsOpened e then
       (None, e\<lparr>elapsedTime := double (of_int f / 1000), doorsOpened := True\<rparr>, am,
        console_log ''Doors fully opened'' b)
     else (None, e\<lparr>elapsedTime := double (of_int f / 1000)\<rparr>, am, b))"
proof -
  have "double 0.05 < 1" unfolding double_literal by simp
  then have "door_t f < double 0.05 \<Longrightarrow> \<not> 1 \<le> door_t f" by simp
  then show ?thesis
    unfolding door_frame_unfold Let_def cue_window_def doors_done_def by auto
qed

lemma door_frame_quiet:
  assumes "\<not> (cue_window f \<and> \<not> doorsOpened e \<and> \<not> gateOpeningSoundPlayed e)"
  shows "\<exists>e' b'. door_frame f (e, am, b) = (None, e', am, b') \<and>
           gateOpeningSoundPlayed e' = gateOpeningSoundPlayed e \<and>
           doorsOpened e' = (doorsOpened e \<or> doors_done f)"
  using assms by (auto simp add: door_frame_result)

text \<open>
  Runs of frames. Once the doors have been found open, or once the cue flag is set,
  every frame returns normally and leaves the audio manager alone; so does every
  frame of a run in which no frame is in the window before the doors are found open.
\<close>

lemma door_frames_quiet:
  assumes "doorsOpened e \<or> gateOpeningSoundPlayed e"
  shows "\<exists>e' b'. door_frames fs (e, am, b) = ([], e', am, b') \<and>
           gateOpeningSoundPlayed e' = gateOpeningSoundPlayed e \<and>
           (doorsOpened e \<longrightarrow> doorsOpened e')"
  using assms
proof (induction fs arbitrary: e b)
  case Nil
  then show ?case by simp
next
  case (Cons f fs)
  from Cons.prems
  have "\<not> (cue_window f \<and> \<not> doorsOpened e \<and> \<not> gateOpeningSoundPlayed e)" by auto
  from door_frame_quiet [OF this, of am b]
  obtain e1 b1 where s: "door_frame f (e, am, b) = (None, e1, am, b1)"
    and k: "gateOpeningSoundPlayed e1 = gateOpeningSoundPlayed e"
      "doorsOpened e1 = (doorsOpened e \<or> doors_done f)"
    by blast
  have "doorsOpened e1 \<or> gateOpeningSoundPlayed e1" using Cons.prems k by auto
  from Cons.IH [OF this, of b1] s k show ?case by auto
qed


lemma cue_frame_index:
  "cue_frame fs = Some k \<longleftrightarrow>
   k < length fs \<and> cue_window (fs ! k) \<and> (\<forall>j<k. \<not> cue_window (fs ! j) \<and> \<not> doors_done (fs ! j))"
proof (induction fs arbitrary: k)
  case Nil
  then show ?case by simp
next
  case (Cons f fs)
  show ?case
  proof (cases k)
    case 0
    then show ?thesis by auto
  next
    case (Suc m)
    have "(\<forall>j<Suc m. \<not> cue_window ((f # fs) ! j) \<and> \<not> doors_done ((f # fs) ! j)) \<longleftrightarrow>
          (\<not> cue_window f \<and> \<not> doors_done f) \<and>
          (\<forall>j<m. \<not> cue_window (fs ! j) \<and> \<not> doors_done (fs ! j))"
      by (auto simp add: less_Suc_eq_0_disj)
    then show ?thesis
      using Suc Cons.IH [of m] by auto
  qed
qed






text \<open>
  What the request does is not part of the amended claim. With the audio manager as
  the class defines it, the call raises the \<^verbatim>\<open>TypeError\<close> before the flag is assigned:
  the frame ends there, the flag stays unset, no sound is started, and the next frame
  in the window requests the cue again. On a gate whose doors have not been found
  open and whose flag is unset, the exceptions of a run are one per frame in the
  window, up to the frame that finds the doors open.
\<close>

lemma door_frame_request:
  assumes "cue_window f" "\<not> doorsOpened e" "\<not> gateOpeningSoundPlayed e"
  shows "door_frame f (e, am, b) =
           (Some TypeError, e\<lparr>elapsedTime := double (of_int f / 1000)\<rparr>, am, b)"
  using assms by (simp add: door_frame_result)

lemma door_frame_keeps_flag:
  "gateOpeningSoundPlayed (fst (snd (door_frame f (e, am, b)))) = gateOpeningSoundPlayed e \<and>
   fst (snd (snd (door_frame f (e, am, b)))) = am"
  by (simp add: door_frame_result)

lemma door_frames_requests:
  assumes "\<not> doorsOpened e" "\<not> gateOpeningSoundPlayed e"
  shows "fst (door_frames fs (e, am, b)) =
           map (\<lambda>f. TypeError) (filter cue_window (takeWhile (\<lambda>f. \<not> doors_done f) fs)) \<and>
         \<not> gateOpeningSoundPlayed (fst (snd (door_frames fs (e, am, b)))) \<and>
         fst (snd (snd (door_frames fs (e, am, b)))) = am"
  using assms
proof (induction fs arbitrary: e b)
  case Nil
  then show ?case by simp
next
  case (Cons f fs)
  show ?case
  proof (cases "cue_window f")
    case True
    let ?e1 = "e\<lparr>elapsedTime := double (of_int f / 1000)\<rparr>"
    have s: "door_frame f (e, am, b) = (Some TypeError, ?e1, am, b)"
      using True Cons.prems by (rule door_frame_request)
    have "\<not> doorsOpened ?e1" "\<not> gateOpeningSoundPlayed ?e1" using Cons.prems by simp_all
    from Cons.IH [OF this, of b] s True cue_not_done [OF True]
    show ?thesis by (auto split: prod.splits)
  next
    case False
    then have "\<not> (cue_window f \<and> \<not> doorsOpened e \<and> \<not> gateOpeningSoundPlayed e)" by simp
    from door_frame_quiet [OF this, of am b]
    obtain e1 b1 where s: "door_frame f (e, am, b) = (None, e1, am, b1)"
      and k: "gateOpeningSoundPlayed e1 = gateOpeningSoundPlayed e"
        "doorsOpened e1 = (doorsOpened e \<or> doors_done f)"
      by blast
    show ?thesis
    proof (cases "doors_done f")
      case True
      then have "doorsOpened e1 \<or> gateOpeningSoundPlayed e1" using k by simp
      from door_frames_quiet [OF this, of fs am b1] s k True False Cons.prems
      show ?thesis by auto
    next
      case d: False
      then have "\<not> doorsOpened e1" "\<not> gateOpeningSoundPlayed e1" using k Cons.prems by simp_all
      from Cons.IH [OF this, of b1] s False d show ?thesis by (auto split: prod.splits)
    qed
  qed
qed

text \<open>
  Frames at 516 and 600 ms, the second on the upper edge of the window, both raise
  it; the frame at 2600 ms opens the doors.
\<close>

lemma gate_cue_call_raises:
  "fst (door_frames [516, 600, 2600] (EntryGateScene_new, AudioManager_new, Browser_fresh)) =
     [TypeError, TypeError] \<and>
   \<not> gateOpeningSoundPlayed (fst (snd (door_frames [516, 600, 2600]
       (EntryGateScene_new, AudioManager_new, Browser_fresh))))"
proof -
  have "\<not> doorsOpened EntryGateScene_new" "\<not> gateOpeningSoundPlayed EntryGateScene_new"
    by (simp_all add: EntryGateScene_new_def)
  from door_frames_requests [OF this, of "[516, 600, 2600]" AudioManager_new Browser_fresh]
  show ?thesis by (simp add: cue_window_ms doors_done_ms)
qed

end
